theory Spec2Isabelle
  imports Main "HOL-Library.Word"
begin

unbundle bit_operations_syntax

section \<open>Publish-subscribe services of QF (qf_ps.c)\<close>

text \<open>
  The development embeds the services of \<^verbatim>\<open>qf_ps.c\<close>: \<^verbatim>\<open>QF_psInit\<close>,
  \<^verbatim>\<open>QF_publish_\<close>, \<^verbatim>\<open>QActive_subscribe\<close>, \<^verbatim>\<open>QActive_unsubscribe\<close> and
  \<^verbatim>\<open>QActive_unsubscribeAll\<close>. A subscriber list is an array of bytes
  (\<^verbatim>\<open>uint8_t bits[]\<close>), the registry \<^verbatim>\<open>QF_subscrList_\<close> an array of subscriber lists
  indexed by signal. The types \<^verbatim>\<open>QSignal\<close> and \<^verbatim>\<open>enum_t\<close> are declared outside the
  file: signals and the dimension of the registry are natural numbers here, and the size
  of \<^verbatim>\<open>QSignal\<close> in bytes is a parameter \<open>Q\<close> of \<^verbatim>\<open>QF_publish_\<close>, whose precondition
  compares the signal with \<^verbatim>\<open>(QSignal)QF_maxSignal_\<close>: the cast keeps the low \<open>8 * Q\<close>
  bits of the dimension. The signal of an event is a \<^verbatim>\<open>QSignal\<close>, so below \<open>2 ^ (8 * Q)\<close>
  in every call the program can make; the other three services compare the signal with
  \<^verbatim>\<open>QF_maxSignal_\<close> itself. Priorities and byte indices (\<^verbatim>\<open>uint_fast8_t\<close>) are natural numbers
  that stay below 256 for the configurations considered (\<^verbatim>\<open>QF_MAX_ACTIVE\<close> at most 64),
  and the bytes of a subscriber list are 8-bit words. The working copy \<^verbatim>\<open>tmp\<close> of a
  byte only ever loses bits, so it is an 8-bit word as well although its C type may be
  wider. Names are those of the C file, without the underscore that ends some of them.

  A failed assertion (\<^verbatim>\<open>Q_REQUIRE_ID\<close>, \<^verbatim>\<open>Q_ASSERT_ID\<close>) does not return: it is the
  error \<open>Q_onAssert id\<close>, and nothing is executed after it. Critical sections and the
  optional software tracing have no effect on the values computed and are left out.
\<close>

type_synonym u8 = "8 word"

subsection \<open>Configuration constants and lookup tables\<close>

text \<open>
  The macro \<^verbatim>\<open>QF_MAX_ACTIVE\<close> is a parameter \<open>M\<close> of every function below; both
  branches of the conditional compilation on it are embedded.
\<close>

definition Q_USER_SIG :: nat where
  \<comment> \<open>Modelled from the spec: the first signal available to the application
      (\<^verbatim>\<open>userSignalBase\<close>), an enumeration constant declared outside this file; the
      reserved signals are 0 to 3.\<close>
  "Q_USER_SIG = 4"

definition to_QSignal :: "nat \<Rightarrow> nat \<Rightarrow> nat" where
  \<comment> \<open>The cast \<^verbatim>\<open>(QSignal)\<close> of a non-negative \<^verbatim>\<open>enum_t\<close>. The type \<^verbatim>\<open>QSignal\<close> is
      declared outside this file, an unsigned integer of \<open>Q\<close> bytes (\<^verbatim>\<open>Q_SIGNAL_SIZE\<close>:
      1, 2 or 4); the conversion keeps the value modulo \<open>2 ^ (8 * Q)\<close>.\<close>
  "to_QSignal Q m = m mod 2 ^ (8 * Q)"

fun low_bits :: "nat \<Rightarrow> nat \<Rightarrow> nat" where
  \<comment> \<open>The value of the low \<open>n\<close> bits of a number, bit by bit: the same conversion,
      computed without the power.\<close>
  "low_bits 0 m = 0"
| "low_bits (Suc n) m = m mod 2 + 2 * low_bits n (m div 2)"

definition Q_DIM_bits :: "nat \<Rightarrow> nat" where
  \<comment> \<open>Modelled from the spec: the number of bytes of a subscriber list, declared with the
      type \<^verbatim>\<open>QSubscrList\<close> outside this file: byte-granularity groups with a total width of
      at least \<^verbatim>\<open>QF_MAX_ACTIVE\<close> bits.\<close>
  "Q_DIM_bits M = (M - 1) div 8 + 1"

definition QF_pwr2Lkup :: "nat \<Rightarrow> u8" where
  \<comment> \<open>Modelled from the spec: the table of bit masks, defined outside this file. Each
      priority owns one bit of its byte: 0x01 for the priorities 1, 9, 17, ..., 0x80 for
      8, 16, 24, ...; entry 0 is unused and holds no bit.\<close>
  "QF_pwr2Lkup p = (if p = 0 then 0 else push_bit ((p - 1) mod 8) 1)"

definition QF_invPwr2Lkup :: "nat \<Rightarrow> u8" where
  \<comment> \<open>Modelled from the spec: the table of inverted bit masks, defined outside this file.\<close>
  "QF_invPwr2Lkup p = NOT (QF_pwr2Lkup p)"

definition QF_div8Lkup :: "nat \<Rightarrow> nat" where
  \<comment> \<open>Modelled from the spec: the table giving the byte of a subscriber list that holds the
      bit of priority \<open>p\<close>, defined outside this file; entry 0 is unused.\<close>
  "QF_div8Lkup p = (p - 1) div 8"

definition QF_LOG2 :: "u8 \<Rightarrow> nat" where
  \<comment> \<open>Modelled from the spec: the macro that finds the most significant bit of a byte,
      defined outside this file. Bits are numbered from 1, and the result for 0 is 0.\<close>
  "QF_LOG2 x =
     (if bit x 7 then 8 else if bit x 6 then 7 else if bit x 5 then 6
      else if bit x 4 then 5 else if bit x 3 then 4 else if bit x 2 then 3
      else if bit x 1 then 2 else if bit x 0 then 1 else 0)"

subsection \<open>Data\<close>

text \<open>
  An event carries its signal, the identifier of its pool (0 for an event that is not
  pool-managed) and its reference counter. An active object has an address, which is what
  the directory \<^verbatim>\<open>QF_active_\<close> holds at its priority, and a priority. The state is the
  registry, its dimension and the directory; the directory is only read here.
\<close>

record QEvt =
  sig :: nat
  poolId :: nat
  refCtr :: nat

record QActive =
  addr :: nat
  prio :: nat

record qf_state =
  QF_subscrList :: "u8 list list"
  QF_maxSignal :: nat
  QF_active :: "nat \<Rightarrow> nat option"

text \<open>
  What a call of \<^verbatim>\<open>QF_publish_\<close> does is a trace: the increment of the reference
  counter, the reads of a byte of the subscriber list of a signal, the lock and unlock of
  the scheduler, the enqueue to the active object of a priority (\<^verbatim>\<open>QACTIVE_POST\<close>) and
  the call of the garbage collector.
\<close>

datatype action =
    RefCtrInc
  | RegRead nat nat
  | SchedLock nat
  | Post nat
  | SchedUnlock
  | Gc

datatype error = Q_onAssert nat

subsection \<open>Collaborators outside the file\<close>

definition QF_SCHED_LOCK :: "nat \<Rightarrow> action list \<times> nat" where
  \<comment> \<open>Modelled from the spec: the port macro that raises the scheduler's ceiling to the
      priority \<open>p\<close> and keeps it in the lock status; the result is the call made and the
      new \<^verbatim>\<open>lockStat.lockPrio\<close>.\<close>
  "QF_SCHED_LOCK p = ([SchedLock p], p)"

definition QF_EVT_REF_CTR_INC :: "QEvt \<Rightarrow> QEvt" where
  \<comment> \<open>Modelled from the spec: \<^verbatim>\<open>incrementRef\<close>, the macro that adds one to the reference
      counter of an event.\<close>
  "QF_EVT_REF_CTR_INC e = e\<lparr>refCtr := refCtr e + 1\<rparr>"

definition QF_gc :: "QEvt \<Rightarrow> QEvt \<times> bool" where
  \<comment> \<open>Modelled from the spec: \<^verbatim>\<open>reclaim\<close>, which does nothing for an event that is not
      pool-managed, and otherwise decrements the count and, if it reaches zero, returns
      the block to its pool. The flag tells whether the block was returned.\<close>
  "QF_gc e =
     (if poolId e = 0 then (e, False)
      else let e' = e\<lparr>refCtr := refCtr e - 1\<rparr> in (e', refCtr e' = 0))"

fun core_refs :: "action list \<Rightarrow> QEvt \<times> bool \<Rightarrow> QEvt \<times> bool" where
  \<comment> \<open>The effect on an event of the reference-counting calls of a trace that has no
      enqueue: what the subscribers' queues do to the counter is theirs.\<close>
  "core_refs [] eb = eb"
| "core_refs (RefCtrInc # tr) (e, b) = core_refs tr (QF_EVT_REF_CTR_INC e, b)"
| "core_refs (Gc # tr) (e, b) = core_refs tr (QF_gc e)"
| "core_refs (a # tr) eb = core_refs tr eb"

subsection \<open>Reading and writing one byte of the registry\<close>

text \<open>
  \<^verbatim>\<open>QF_PTR_AT_(QF_subscrList_, sig).bits[i]\<close>, read and written. For a registry of the
  configured shape the assertions of the callers keep both indices in range. Outside the
  range the C program has no defined behaviour; here a read gives an unspecified byte and
  a write changes nothing.
\<close>

definition get_bits :: "qf_state \<Rightarrow> nat \<Rightarrow> nat \<Rightarrow> u8" where
  "get_bits s sg i = QF_subscrList s ! sg ! i"

definition set_bits :: "qf_state \<Rightarrow> nat \<Rightarrow> nat \<Rightarrow> u8 \<Rightarrow> qf_state" where
  "set_bits s sg i v =
     s\<lparr>QF_subscrList := (QF_subscrList s)[sg := (QF_subscrList s ! sg)[i := v]]\<rparr>"

definition is_subscribed :: "qf_state \<Rightarrow> nat \<Rightarrow> nat \<Rightarrow> bool" where
  \<comment> \<open>The test of \<^verbatim>\<open>QActive_unsubscribeAll\<close> for the bit of priority \<open>p\<close>.\<close>
  "is_subscribed s sg p \<longleftrightarrow> get_bits s sg (QF_div8Lkup p) AND QF_pwr2Lkup p \<noteq> 0"

subsection \<open>QF\_psInit\<close>

text \<open>
  The storage \<^verbatim>\<open>subscrSto\<close> handed over has one subscriber list for each of the
  \<^verbatim>\<open>maxSignal\<close> signals; \<^verbatim>\<open>QF_bzero\<close> clears all their bytes.
\<close>

definition QF_psInit :: "nat \<Rightarrow> qf_state \<Rightarrow> nat \<Rightarrow> qf_state" where
  "QF_psInit M s maxSignal =
     s\<lparr>QF_subscrList := replicate maxSignal (replicate (Q_DIM_bits M) 0),
       QF_maxSignal := maxSignal\<rparr>"

subsection \<open>QF\_publish\_\<close>

text \<open>
  The inner loop, over the set bits of one byte. It returns the calls made, the lock
  priority and the assertion that fired, if one did. In the branch for
  \<^verbatim>\<open>QF_MAX_ACTIVE <= 8\<close> the priority is the bit number itself, which is the loop below
  for byte 0 with the assertion 210; in the other branch the assertion is 220. The enqueue
  \<^verbatim>\<open>QACTIVE_POST\<close> is a call of the queue, outside the file, which asserts when the queue
  has no room: every enqueue is taken to return, so what is proved of a publication is
  proved of one whose enqueues do not overflow a queue.
\<close>

function subscr_loop ::
  "(nat \<Rightarrow> nat option) \<Rightarrow> nat \<Rightarrow> nat \<Rightarrow> u8 \<Rightarrow> nat \<Rightarrow> action list \<times> nat \<times> error option"
where
  "subscr_loop act aid i tmp lockPrio =
     (if tmp \<noteq> 0 then
        let p0 = QF_LOG2 tmp;
            tmp' = tmp AND QF_invPwr2Lkup p0;
            p = p0 + push_bit 3 i;
            (lk_tr, lockPrio') =
               (if lockPrio = 0xFF then QF_SCHED_LOCK p else ([], lockPrio))
        in if act p = None then (lk_tr, lockPrio', Some (Q_onAssert aid))
           else (case subscr_loop act aid i tmp' lockPrio' of
                   (tr, lk, r) \<Rightarrow> (lk_tr @ Post p # tr, lk, r))
      else ([], lockPrio, None))"
  by pat_completeness auto

text \<open>The loop over the bytes of a subscriber list, from the last one down to byte 0.\<close>

function bytes_loop ::
  "(nat \<Rightarrow> nat option) \<Rightarrow> nat \<Rightarrow> u8 list \<Rightarrow> nat \<Rightarrow> nat \<Rightarrow> action list \<times> nat \<times> error option"
where
  "bytes_loop act sg row i lockPrio =
     (let i' = i - 1;
          tmp = row ! i'
      in case subscr_loop act 220 i' tmp lockPrio of
           (tr, lk, Some err) \<Rightarrow> (RegRead sg i' # tr, lk, Some err)
         | (tr, lk, None) \<Rightarrow>
             if i' \<noteq> 0 then
               (case bytes_loop act sg row i' lk of
                  (tr2, lk2, r2) \<Rightarrow> (RegRead sg i' # tr @ tr2, lk2, r2))
             else (RegRead sg i' # tr, lk, None))"
  by pat_completeness auto

text \<open>
  The function itself, for a \<^verbatim>\<open>QSignal\<close> of \<open>Q\<close> bytes and \<^verbatim>\<open>QF_MAX_ACTIVE\<close> equal to
  \<open>M\<close>: the precondition 200, which compares the signal with the dimension of the
  registry cast to \<^verbatim>\<open>QSignal\<close>, the increment of the reference counter of a pool-managed
  event, the traversal with the lock status not yet set (\<^verbatim>\<open>0xFF\<close>), the unlock if the
  lock priority is a priority, and the garbage collector.
\<close>

definition QF_publish :: "nat \<Rightarrow> nat \<Rightarrow> qf_state \<Rightarrow> QEvt \<Rightarrow> action list \<times> error option" where
  "QF_publish Q M s e =
     (if \<not> sig e < to_QSignal Q (QF_maxSignal s) then ([], Some (Q_onAssert 200))
      else
        let inc = (if poolId e \<noteq> 0 then [RefCtrInc] else []);
            lockPrio = 0xFF;
            (tr, lockPrio', r) =
              (if M \<le> 8 then
                 (case subscr_loop (QF_active s) 210 0 (get_bits s (sig e) 0) lockPrio of
                    (tr, lk, r) \<Rightarrow> (RegRead (sig e) 0 # tr, lk, r))
               else bytes_loop (QF_active s) (sig e) (QF_subscrList s ! sig e)
                      (Q_DIM_bits M) lockPrio)
        in case r of
             Some err \<Rightarrow> (inc @ tr, Some err)
           | None \<Rightarrow>
               (inc @ tr @ (if lockPrio' \<le> M then [SchedUnlock] else []) @ [Gc], None))"

subsection \<open>QActive\_subscribe, QActive\_unsubscribe, QActive\_unsubscribeAll\<close>

text \<open>
  Each function first checks its precondition (assertions 300, 400 and 500): the signal
  is a user signal below \<^verbatim>\<open>QF_maxSignal_\<close>, the priority of the active object is
  between 1 and \<^verbatim>\<open>QF_MAX_ACTIVE\<close>, and the directory holds this active object at its
  priority. Then the bit of the priority is set with the mask, or cleared with the
  inverted mask; \<^verbatim>\<open>QActive_unsubscribeAll\<close> does so for every signal from
  \<^verbatim>\<open>Q_USER_SIG\<close> on, where the bit is set.
\<close>

definition QActive_subscribe :: "nat \<Rightarrow> qf_state \<Rightarrow> QActive \<Rightarrow> nat \<Rightarrow> error + qf_state" where
  "QActive_subscribe M s me sg =
     (let p = prio me;
          i = QF_div8Lkup p
      in if \<not> (Q_USER_SIG \<le> sg \<and> sg < QF_maxSignal s \<and> 0 < p \<and> p \<le> M
                \<and> QF_active s p = Some (addr me))
         then Inl (Q_onAssert 300)
         else Inr (set_bits s sg i (get_bits s sg i OR QF_pwr2Lkup p)))"

definition QActive_unsubscribe :: "nat \<Rightarrow> qf_state \<Rightarrow> QActive \<Rightarrow> nat \<Rightarrow> error + qf_state" where
  "QActive_unsubscribe M s me sg =
     (let p = prio me;
          i = QF_div8Lkup p
      in if \<not> (Q_USER_SIG \<le> sg \<and> sg < QF_maxSignal s \<and> 0 < p \<and> p \<le> M
                \<and> QF_active s p = Some (addr me))
         then Inl (Q_onAssert 400)
         else Inr (set_bits s sg i (get_bits s sg i AND QF_invPwr2Lkup p)))"

function unsubscribeAll_loop :: "nat \<Rightarrow> nat \<Rightarrow> qf_state \<Rightarrow> nat \<Rightarrow> qf_state" where
  "unsubscribeAll_loop p i s sg =
     (if sg < QF_maxSignal s then
        unsubscribeAll_loop p i
          (if get_bits s sg i AND QF_pwr2Lkup p \<noteq> 0
           then set_bits s sg i (get_bits s sg i AND QF_invPwr2Lkup p)
           else s)
          (sg + 1)
      else s)"
  by pat_completeness auto

definition QActive_unsubscribeAll :: "nat \<Rightarrow> qf_state \<Rightarrow> QActive \<Rightarrow> error + qf_state" where
  "QActive_unsubscribeAll M s me =
     (let p = prio me
      in if \<not> (0 < p \<and> p \<le> M \<and> QF_active s p = Some (addr me))
         then Inl (Q_onAssert 500)
         else Inr (unsubscribeAll_loop p (QF_div8Lkup p) s Q_USER_SIG))"

subsection \<open>States reachable from the initialisation\<close>

text \<open>
  The directory \<^verbatim>\<open>QF_active_\<close> belongs to the framework: active objects are registered
  and removed outside this file, at any moment between two calls.
\<close>

inductive reachable :: "nat \<Rightarrow> qf_state \<Rightarrow> bool" for M :: nat where
  init: "reachable M (QF_psInit M s maxSignal)"
| directory: "reachable M s \<Longrightarrow> reachable M (s\<lparr>QF_active := d\<rparr>)"
| subscribe: "reachable M s \<Longrightarrow> QActive_subscribe M s me sg = Inr s' \<Longrightarrow> reachable M s'"
| unsubscribe: "reachable M s \<Longrightarrow> QActive_unsubscribe M s me sg = Inr s' \<Longrightarrow> reachable M s'"
| unsubscribeAll: "reachable M s \<Longrightarrow> QActive_unsubscribeAll M s me = Inr s' \<Longrightarrow> reachable M s'"

subsection \<open>The subscribers of a signal, highest priority first\<close>

definition bits_desc :: "u8 \<Rightarrow> nat list" where
  \<comment> \<open>The numbers (from 1) of the set bits of a byte, most significant first.\<close>
  "bits_desc x = filter (\<lambda>b. bit x (b - 1)) [8, 7, 6, 5, 4, 3, 2, 1]"

definition byte_prios :: "nat \<Rightarrow> u8 \<Rightarrow> nat list" where
  "byte_prios i x = map (\<lambda>b. b + 8 * i) (bits_desc x)"

definition row_prios :: "u8 list \<Rightarrow> nat \<Rightarrow> nat list" where
  \<comment> \<open>The priorities whose bit is set in the first \<open>n\<close> bytes of a subscriber list.\<close>
  "row_prios row n = concat (map (\<lambda>i. byte_prios i (row ! i)) (rev [0..<n]))"

definition subscr_prios :: "nat \<Rightarrow> qf_state \<Rightarrow> nat \<Rightarrow> nat list" where
  "subscr_prios M s sg = row_prios (QF_subscrList s ! sg) (Q_DIM_bits M)"

definition wf_registry :: "nat \<Rightarrow> qf_state \<Rightarrow> bool" where
  \<comment> \<open>The storage handed to \<^verbatim>\<open>QF_psInit\<close>: one subscriber list per signal, each of the
      configured number of bytes, for a configuration the tables cover.\<close>
  "wf_registry M s \<longleftrightarrow>
     0 < M \<and> M \<le> 64 \<and> length (QF_subscrList s) = QF_maxSignal s \<and>
     list_all (\<lambda>row. length row = Q_DIM_bits M) (QF_subscrList s)"

definition bits_above_clear :: "nat \<Rightarrow> qf_state \<Rightarrow> bool" where
  \<comment> \<open>No subscriber list holds a bit for a priority above \<^verbatim>\<open>QF_MAX_ACTIVE\<close>.\<close>
  "bits_above_clear M s \<longleftrightarrow>
     list_all (\<lambda>row. list_all (\<lambda>p. p \<le> M) (row_prios row (length row))) (QF_subscrList s)"

definition subscribers_registered :: "nat \<Rightarrow> qf_state \<Rightarrow> nat \<Rightarrow> bool" where
  "subscribers_registered M s sg \<longleftrightarrow>
     list_all (\<lambda>p. QF_active s p \<noteq> None) (subscr_prios M s sg)"

definition posts :: "action list \<Rightarrow> nat list" where
  "posts tr = concat (map (\<lambda>a. case a of Post p \<Rightarrow> [p] | _ \<Rightarrow> []) tr)"

fun is_RegRead :: "action \<Rightarrow> bool" where
  "is_RegRead (RegRead sg i) = True"
| "is_RegRead a = False"

definition calls :: "action list \<Rightarrow> action list" where
  \<comment> \<open>The calls of a trace to the collaborators, without the reads of the registry.\<close>
  "calls tr = filter (\<lambda>a. \<not> is_RegRead a) tr"

definition sched_calls :: "action list \<Rightarrow> action list" where
  \<comment> \<open>The calls of a trace to the scheduler lock and to the queues.\<close>
  "sched_calls tr =
     filter (\<lambda>a. case a of SchedLock p \<Rightarrow> True | Post p \<Rightarrow> True | SchedUnlock \<Rightarrow> True
                     | _ \<Rightarrow> False) tr"

definition ref_calls :: "action list \<Rightarrow> action list" where
  \<comment> \<open>The calls of a trace to the reference counting and to the queues.\<close>
  "ref_calls tr =
     filter (\<lambda>a. case a of RefCtrInc \<Rightarrow> True | Post p \<Rightarrow> True | Gc \<Rightarrow> True
                     | _ \<Rightarrow> False) tr"

subsection \<open>Example configurations\<close>

definition ex_dir :: "nat \<Rightarrow> nat option" where
  \<comment> \<open>A directory with active objects at the priorities 1, 2, 3, 5, 7 and 12.\<close>
  "ex_dir p = (if p \<in> {1, 2, 3, 5, 7, 12} then Some (100 + p) else None)"

definition ex_ao :: "nat \<Rightarrow> QActive" where
  "ex_ao p = \<lparr>addr = 100 + p, prio = p\<rparr>"

definition ex8 :: qf_state where
  \<comment> \<open>\<^verbatim>\<open>QF_MAX_ACTIVE\<close> = 8, ten signals; the priorities 2, 5 and 7 subscribe to
      signal 6, the priorities 1 and 3 to signal 7.\<close>
  "ex8 = \<lparr>QF_subscrList = [[0], [0], [0], [0], [0], [0], [0x52], [0x05], [0], [0]],
           QF_maxSignal = 10, QF_active = ex_dir\<rparr>"


definition ex_evt :: "nat \<Rightarrow> nat \<Rightarrow> nat \<Rightarrow> QEvt" where
  "ex_evt sg pid cnt = \<lparr>sig = sg, poolId = pid, refCtr = cnt\<rparr>"

text \<open>
  The lock taken by a traversal that starts with the lock priority \<open>lk\<close> and visits the
  priorities \<open>ps\<close>, and the lock priority it ends with.
\<close>

definition lock_part :: "nat \<Rightarrow> nat list \<Rightarrow> action list" where
  "lock_part lk ps = (if lk = 0xFF \<and> ps \<noteq> [] then [SchedLock (hd ps)] else [])"

definition lock_prio :: "nat \<Rightarrow> nat list \<Rightarrow> nat" where
  "lock_prio lk ps = (if lk = 0xFF \<and> ps \<noteq> [] then hd ps else lk)"

section \<open>Bytes and their most significant bit\<close>

lemma less_8_cases: "n < 8 \<Longrightarrow> n \<in> {0, 1, 2, 3, 4, 5, 6, 7 :: nat}"
  by (simp del: One_nat_def) arith

lemma u8_zero_iff:
  "(x :: u8) = 0 \<longleftrightarrow>
     \<not> (bit x 7 \<or> bit x 6 \<or> bit x 5 \<or> bit x 4 \<or> bit x 3 \<or> bit x 2 \<or> bit x 1 \<or> bit x 0)"
proof
  assume "x = 0"
  then show "\<not> (bit x 7 \<or> bit x 6 \<or> bit x 5 \<or> bit x 4 \<or> bit x 3 \<or> bit x 2 \<or> bit x 1 \<or> bit x 0)"
    by simp
next
  assume clear: "\<not> (bit x 7 \<or> bit x 6 \<or> bit x 5 \<or> bit x 4 \<or> bit x 3 \<or> bit x 2 \<or> bit x 1 \<or> bit x 0)"
  show "x = 0"
  proof (rule bit_word_eqI)
    fix n assume "n < LENGTH(8)"
    then have "n < 8" by simp
    from less_8_cases [OF this] clear show "bit x n \<longleftrightarrow> bit (0 :: u8) n"
      by auto
  qed
qed

text \<open>
  One turn of the inner loop of \<^verbatim>\<open>QF_publish_\<close>: the logarithm finds the highest set bit
  and the inverted mask removes exactly that bit.
\<close>

lemma bits_desc_step:
  "tmp \<noteq> 0 \<Longrightarrow>
     bits_desc tmp = QF_LOG2 tmp # bits_desc (tmp AND QF_invPwr2Lkup (QF_LOG2 tmp))"
  unfolding u8_zero_iff
  by (auto simp: bits_desc_def QF_LOG2_def QF_invPwr2Lkup_def QF_pwr2Lkup_def
        bit_and_iff bit_not_iff bit_push_bit_iff bit_1_iff)

lemma bits_desc_0 [simp]: "bits_desc 0 = []"
  by (simp add: bits_desc_def)

lemma QF_maxSignal_set_bits [simp]: "QF_maxSignal (set_bits s sg i v) = QF_maxSignal s"
  by (simp add: set_bits_def)

lemma bits_desc_shorter:
  "tmp \<noteq> 0 \<Longrightarrow>
     length (bits_desc (tmp AND QF_invPwr2Lkup (QF_LOG2 tmp))) < length (bits_desc tmp)"
  by (subst (2) bits_desc_step) simp_all

section \<open>The loops terminate\<close>

termination subscr_loop
  apply (relation "measure (\<lambda>(act, aid, i, tmp, lk). length (bits_desc tmp))")
   apply simp
  apply (simp add: bits_desc_shorter)
  done

termination bytes_loop
  by (relation "measure (\<lambda>(act, sg, row, i, lk). i)") auto

termination unsubscribeAll_loop
  by (relation "measure (\<lambda>(p, i, s, sg). QF_maxSignal s - sg)") auto

declare subscr_loop.simps [simp del]
declare bytes_loop.simps [simp del]
declare unsubscribeAll_loop.simps [simp del]

section \<open>The calls made by one publication\<close>

lemma bits_desc_range: "b \<in> set (bits_desc x) \<Longrightarrow> 0 < b \<and> b \<le> 8"
proof -
  assume "b \<in> set (bits_desc x)"
  then have "b \<in> set [8, 7, 6, 5, 4, 3, 2, 1 :: nat]"
    unfolding bits_desc_def set_filter by blast
  then show ?thesis by auto
qed

lemma QF_LOG2_le: "QF_LOG2 x \<le> 8"
  by (simp add: QF_LOG2_def)

lemma byte_prios_step:
  "tmp \<noteq> 0 \<Longrightarrow>
     byte_prios i tmp =
       (QF_LOG2 tmp + push_bit 3 i) # byte_prios i (tmp AND QF_invPwr2Lkup (QF_LOG2 tmp))"
  by (simp add: byte_prios_def bits_desc_step [of tmp] push_bit_eq_mult)

lemma byte_prios_0 [simp]: "byte_prios i 0 = []"
  by (simp add: byte_prios_def)

lemma byte_prios_Nil_iff: "byte_prios i x = [] \<longleftrightarrow> x = 0"
  using byte_prios_step [of x i] by (cases "x = 0") auto

lemma lock_part_Cons: "lock_part lk (p # ps) = (if lk = 0xFF then [SchedLock p] else [])"
  by (simp add: lock_part_def)

lemma lock_prio_Cons: "lock_prio lk (p # ps) = (if lk = 0xFF then p else lk)"
  by (simp add: lock_prio_def)

lemma lock_part_locked: "lk \<noteq> 0xFF \<Longrightarrow> lock_part lk ps = []"
  by (simp add: lock_part_def)

lemma lock_prio_locked: "lk \<noteq> 0xFF \<Longrightarrow> lock_prio lk ps = lk"
  by (simp add: lock_prio_def)

lemma lock_Nil [simp]: "lock_part lk [] = []" "lock_prio lk [] = lk"
  by (simp_all add: lock_part_def lock_prio_def)

lemma subscr_loop_closed:
  "i < 8 \<Longrightarrow>
   subscr_loop act aid i tmp lk =
     (lock_part lk (byte_prios i tmp)
        @ map Post (takeWhile (\<lambda>p. act p \<noteq> None) (byte_prios i tmp)),
      lock_prio lk (byte_prios i tmp),
      if list_all (\<lambda>p. act p \<noteq> None) (byte_prios i tmp) then None else Some (Q_onAssert aid))"
proof (induction act aid i tmp lk rule: subscr_loop.induct)
  case (1 act aid i tmp lockPrio)
  show ?case
  proof (cases "tmp = 0")
    case True
    then show ?thesis by (simp add: subscr_loop.simps [of _ _ _ 0])
  next
    case False
    define p where "p = QF_LOG2 tmp + push_bit 3 i"
    define tmp' where "tmp' = tmp AND QF_invPwr2Lkup (QF_LOG2 tmp)"
    define lk' where "lk' = (if lockPrio = 0xFF then p else lockPrio)"
    define lk_tr where "lk_tr = (if lockPrio = 0xFF then [SchedLock p] else [])"
    have step: "byte_prios i tmp = p # byte_prios i tmp'"
      using False by (simp add: byte_prios_step p_def tmp'_def)
    have "p \<le> 8 + 8 * i"
      using QF_LOG2_le [of tmp] by (simp add: p_def push_bit_eq_mult)
    with \<open>i < 8\<close> have "p \<noteq> 0xFF" by simp
    then have lk': "lk' \<noteq> 0xFF"
      by (simp add: lk'_def)
    have lock: "(if lockPrio = 0xFF then QF_SCHED_LOCK p else ([], lockPrio)) = (lk_tr, lk')"
      by (simp add: QF_SCHED_LOCK_def lk_tr_def lk'_def)
    show ?thesis
    proof (cases "act p = None")
      case True
      have "subscr_loop act aid i tmp lockPrio = (lk_tr, lk', Some (Q_onAssert aid))"
        using False True
        by (subst subscr_loop.simps)
           (simp add: Let_def p_def [symmetric] QF_SCHED_LOCK_def lk_tr_def lk'_def)
      with True show ?thesis
        by (simp add: step lock_part_Cons lock_prio_Cons lk_tr_def lk'_def)
    next
      case registered: False
      have IH: "subscr_loop act aid i tmp' lk' =
          (map Post (takeWhile (\<lambda>p. act p \<noteq> None) (byte_prios i tmp')), lk',
           if list_all (\<lambda>p. act p \<noteq> None) (byte_prios i tmp') then None
           else Some (Q_onAssert aid))"
        using "1.IH" [OF False refl refl refl lock [unfolded p_def, symmetric]] registered \<open>i < 8\<close> lk'
        by (simp add: p_def [symmetric] tmp'_def [symmetric] lock_part_locked lock_prio_locked)
      have unfold: "subscr_loop act aid i tmp lockPrio =
          (case subscr_loop act aid i tmp' lk' of (tr, lk, r) \<Rightarrow> (lk_tr @ Post p # tr, lk, r))"
      proof -
        from registered obtain a where "act p = Some a" by auto
        with False show ?thesis
          by (subst subscr_loop.simps)
             (simp add: Let_def p_def [symmetric] tmp'_def [symmetric] QF_SCHED_LOCK_def
                lk_tr_def lk'_def)
      qed
      from registered show ?thesis
        unfolding unfold IH
        by (simp add: step lock_part_Cons lock_prio_Cons lk_tr_def lk'_def)
    qed
  qed
qed


lemma byte_prios_range: "p \<in> set (byte_prios i x) \<Longrightarrow> 8 * i < p \<and> p \<le> 8 * i + 8"
  using bits_desc_range [of _ x] by (auto simp: byte_prios_def)

lemma row_prios_0 [simp]: "row_prios row 0 = []"
  by (simp add: row_prios_def)

lemma row_prios_Suc: "row_prios row (Suc n) = byte_prios n (row ! n) @ row_prios row n"
  by (simp add: row_prios_def)

lemma calls_append [simp]: "calls (xs @ ys) = calls xs @ calls ys"
  by (simp add: calls_def)

lemma calls_Post [simp]: "calls (map Post ps) = map Post ps"
  by (induction ps) (simp_all add: calls_def)

lemma calls_simps [simp]:
  "calls [] = []"
  "calls (RegRead sg i # tr) = calls tr"
  "calls (SchedLock p # tr) = SchedLock p # calls tr"
  "calls (Post p # tr) = Post p # calls tr"
  "calls (RefCtrInc # tr) = RefCtrInc # calls tr"
  "calls (SchedUnlock # tr) = SchedUnlock # calls tr"
  "calls (Gc # tr) = Gc # calls tr"
  by (simp_all add: calls_def)

lemma takeWhile_all: "list_all P xs \<Longrightarrow> takeWhile P xs = xs"
  by (simp add: list_all_iff)

lemma bytes_loop_closed:
  "0 < n \<Longrightarrow> n \<le> 8 \<Longrightarrow>
     \<exists>tr. bytes_loop act sg row n lk =
            (tr, lock_prio lk (row_prios row n),
             if list_all (\<lambda>p. act p \<noteq> None) (row_prios row n) then None
             else Some (Q_onAssert 220)) \<and>
          calls tr = lock_part lk (row_prios row n)
            @ map Post (takeWhile (\<lambda>p. act p \<noteq> None) (row_prios row n))"
proof (induction n arbitrary: lk)
  case 0
  then show ?case by simp
next
  case (Suc m)
  define bp where "bp = byte_prios m (row ! m)"
  define rest where "rest = row_prios row m"
  define lk1 where "lk1 = lock_prio lk bp"
  let ?reg = "\<lambda>p. act p \<noteq> None"
  have m: "m < 8" using Suc.prems by simp
  have ps: "row_prios row (Suc m) = bp @ rest"
    by (simp add: row_prios_Suc bp_def rest_def)
  have inner: "subscr_loop act 220 m (row ! m) lk =
      (lock_part lk bp @ map Post (takeWhile ?reg bp), lk1,
       if list_all ?reg bp then None else Some (Q_onAssert 220))"
    using subscr_loop_closed [OF m, of act 220 "row ! m" lk] by (simp add: bp_def lk1_def)
  have bp_small: "hd bp \<noteq> 0xFF" if "bp \<noteq> []"
  proof -
    from that have "hd bp \<in> set bp" by simp
    from byte_prios_range [OF this [unfolded bp_def]] m show ?thesis
      by (simp add: bp_def)
  qed
  have lk1: "lk1 \<noteq> 0xFF" if "bp \<noteq> []"
    using that bp_small by (cases bp) (auto simp: lk1_def lock_prio_def)
  have calls_lock: "calls (lock_part lk bp) = lock_part lk bp"
    by (simp add: lock_part_def)
  show ?case
  proof (cases "list_all ?reg bp")
    case False
    then have bp: "bp \<noteq> []" by auto
    from False have stop: "takeWhile ?reg (bp @ rest) = takeWhile ?reg bp"
      by (auto simp: list_all_iff intro: takeWhile_append1)
    have "bytes_loop act sg row (Suc m) lk =
        (RegRead sg m # lock_part lk bp @ map Post (takeWhile ?reg bp), lk1,
         Some (Q_onAssert 220))"
      using False inner by (subst bytes_loop.simps) simp
    moreover have "lock_part lk (bp @ rest) = lock_part lk bp" "lock_prio lk (bp @ rest) = lk1"
      using bp by (simp_all add: lock_part_def lock_prio_def lk1_def)
    ultimately show ?thesis
      using False calls_lock stop by (simp add: ps)
  next
    case True
    then have all: "takeWhile ?reg bp = bp"
      by (simp add: list_all_iff)
    from True have cont: "takeWhile ?reg (bp @ rest) = bp @ takeWhile ?reg rest"
      by (simp add: list_all_iff takeWhile_append2)
    have lock_app: "lock_part lk (bp @ rest) = lock_part lk bp @ lock_part lk1 rest"
      using lk1 by (cases "bp = []") (auto simp: lock_part_def lock_prio_def lk1_def)
    have prio_app: "lock_prio lk (bp @ rest) = lock_prio lk1 rest"
      using lk1 by (cases "bp = []") (auto simp: lock_prio_def lk1_def)
    from True have inner': "subscr_loop act 220 m (row ! m) lk =
        (lock_part lk bp @ map Post bp, lk1, None)"
      unfolding inner all by simp
    have commute: "map Post bp @ lock_part lk1 rest = lock_part lk1 rest @ map Post bp"
      using lk1 by (cases "bp = []") (auto simp: lock_part_def)
    show ?thesis
    proof (cases "m = 0")
      case m0: True
      have "bytes_loop act sg row (Suc m) lk =
          (RegRead sg m # lock_part lk bp @ map Post bp, lk1, None)"
        using m0 inner' by (subst bytes_loop.simps) simp
      moreover have "rest = []"
        using m0 by (simp add: rest_def)
      ultimately show ?thesis
        using True calls_lock by (simp add: ps lk1_def takeWhile_all)
    next
      case False
      then have "0 < m" by simp
      from Suc.IH [OF this, of lk1] m
      obtain tr2 where tr2: "bytes_loop act sg row m lk1 =
          (tr2, lock_prio lk1 rest, if list_all ?reg rest then None else Some (Q_onAssert 220))"
        and calls2: "calls tr2 = lock_part lk1 rest @ map Post (takeWhile ?reg rest)"
        unfolding rest_def by auto
      have "bytes_loop act sg row (Suc m) lk =
          (RegRead sg m # (lock_part lk bp @ map Post bp) @ tr2, lock_prio lk1 rest,
           if list_all ?reg rest then None else Some (Q_onAssert 220))"
        using False inner' tr2 by (subst bytes_loop.simps) simp
      then show ?thesis
        using True calls2 calls_lock commute cont
        by (simp add: ps lock_app prio_app)
    qed
  qed
qed

lemma low_bits_mod: "low_bits n m = m mod 2 ^ n"
  by (induction n arbitrary: m) (simp_all add: mod_mult2_eq)

lemma to_QSignal_low_bits [code]: "to_QSignal Q m = low_bits (8 * Q) m"
  by (simp add: to_QSignal_def low_bits_mod)

lemma to_QSignal_le: "to_QSignal Q m \<le> m"
  by (simp add: to_QSignal_def)


lemma sig_below_maxSignal: "sg < to_QSignal Q m \<Longrightarrow> sg < m"
  using to_QSignal_le [of Q m] by simp

lemma Q_DIM_bits_range: "0 < M \<Longrightarrow> M \<le> 64 \<Longrightarrow> 0 < Q_DIM_bits M \<and> Q_DIM_bits M \<le> 8"
  by (simp add: Q_DIM_bits_def)

lemma Q_DIM_bits_small: "0 < M \<Longrightarrow> M \<le> 8 \<Longrightarrow> Q_DIM_bits M = 1"
  by (simp add: Q_DIM_bits_def) 

lemma subscr_prios_le:
  assumes "wf_registry M s" "bits_above_clear M s" "sg < QF_maxSignal s"
    and "p \<in> set (subscr_prios M s sg)"
  shows "p \<le> M"
proof -
  let ?row = "QF_subscrList s ! sg"
  have "?row \<in> set (QF_subscrList s)"
    using assms(1,3) by (simp add: wf_registry_def)
  then have "length ?row = Q_DIM_bits M"
    and "list_all (\<lambda>p. p \<le> M) (row_prios ?row (length ?row))"
    using assms(1,2) by (auto simp: wf_registry_def bits_above_clear_def list_all_iff)
  with assms(4) show ?thesis
    by (simp add: subscr_prios_def list_all_iff)
qed

lemma publish_calls_closed:
  assumes wf: "wf_registry M s" and clear: "bits_above_clear M s"
    and sg: "sig e < to_QSignal Q (QF_maxSignal s)"
  shows "\<exists>tr. QF_publish Q M s e =
            (tr, if subscribers_registered M s (sig e) then None
                 else Some (Q_onAssert (if M \<le> 8 then 210 else 220))) \<and>
           calls tr = (if poolId e \<noteq> 0 then [RefCtrInc] else [])
             @ lock_part 0xFF (subscr_prios M s (sig e))
             @ map Post (takeWhile (\<lambda>p. QF_active s p \<noteq> None) (subscr_prios M s (sig e)))
             @ (if subscribers_registered M s (sig e)
                then (if subscr_prios M s (sig e) \<noteq> [] then [SchedUnlock] else []) @ [Gc]
                else [])"
proof -
  define ps where "ps = subscr_prios M s (sig e)"
  define row where "row = QF_subscrList s ! sig e"
  define aid :: nat where "aid = (if M \<le> 8 then 210 else 220)"
  let ?reg = "\<lambda>p. QF_active s p \<noteq> None"
  define r where "r = (if list_all ?reg ps then None else Some (Q_onAssert aid))"
  have M: "0 < M" "M \<le> 64" using wf by (simp_all add: wf_registry_def)
  have regd: "subscribers_registered M s (sig e) = list_all ?reg ps"
    by (simp add: subscribers_registered_def ps_def)
  have ps: "ps = row_prios row (Q_DIM_bits M)"
    by (simp add: ps_def subscr_prios_def row_def)
  have unlock: "lock_prio 0xFF ps \<le> M \<longleftrightarrow> ps \<noteq> []"
  proof (cases "ps = []")
    case True
    then show ?thesis using M by (simp add: lock_prio_def)
  next
    case False
    then have "hd ps \<in> set (subscr_prios M s (sig e))" by (simp add: ps_def)
    from subscr_prios_le [OF wf clear sig_below_maxSignal [OF sg] this] False show ?thesis
      by (simp add: lock_prio_def)
  qed
  have "\<exists>tr. (if M \<le> 8 then
                 (case subscr_loop (QF_active s) 210 0 (get_bits s (sig e) 0) 0xFF of
                    (tr, lk, r) \<Rightarrow> (RegRead (sig e) 0 # tr, lk, r))
               else bytes_loop (QF_active s) (sig e) (QF_subscrList s ! sig e)
                      (Q_DIM_bits M) 0xFF) = (tr, lock_prio 0xFF ps, r) \<and>
             calls tr = lock_part 0xFF ps @ map Post (takeWhile ?reg ps)"
  proof (cases "M \<le> 8")
    case True
    then have dim: "Q_DIM_bits M = 1" using M by (simp add: Q_DIM_bits_small)
    have ps0: "ps = byte_prios 0 (row ! 0)"
      by (simp add: ps dim row_prios_Suc [of row 0, simplified])
    have "subscr_loop (QF_active s) 210 0 (row ! 0) 0xFF =
        (lock_part 0xFF ps @ map Post (takeWhile ?reg ps), lock_prio 0xFF ps, r)"
      using subscr_loop_closed [of 0 "QF_active s" 210 "row ! 0" "0xFF"] True
      by (simp add: ps0 [symmetric] r_def aid_def)
    then show ?thesis
      using True by (simp add: get_bits_def row_def [symmetric] lock_part_def)
  next
    case False
    from bytes_loop_closed [of "Q_DIM_bits M" "QF_active s" "sig e" row "0xFF"]
      Q_DIM_bits_range [OF M]
    show ?thesis using False by (auto simp: ps r_def aid_def row_def)
  qed
  then obtain tr where tr: "(if M \<le> 8 then
                 (case subscr_loop (QF_active s) 210 0 (get_bits s (sig e) 0) 0xFF of
                    (tr, lk, r) \<Rightarrow> (RegRead (sig e) 0 # tr, lk, r))
               else bytes_loop (QF_active s) (sig e) (QF_subscrList s ! sig e)
                      (Q_DIM_bits M) 0xFF) = (tr, lock_prio 0xFF ps, r)"
    and calls_tr: "calls tr = lock_part 0xFF ps @ map Post (takeWhile ?reg ps)"
    by blast
  have "QF_publish Q M s e =
      (if list_all ?reg ps
       then ((if poolId e \<noteq> 0 then [RefCtrInc] else []) @ tr
               @ (if ps \<noteq> [] then [SchedUnlock] else []) @ [Gc], None)
       else ((if poolId e \<noteq> 0 then [RefCtrInc] else []) @ tr, Some (Q_onAssert aid)))"
    using sg unlock by (simp add: QF_publish_def Let_def tr r_def)
  then show ?thesis
    using calls_tr by (simp add: ps_def [symmetric] regd aid_def)
qed

lemma publish_calls:
  assumes wf: "wf_registry M s" and clear: "bits_above_clear M s"
    and sg: "sig e < to_QSignal Q (QF_maxSignal s)" and reg: "subscribers_registered M s (sig e)"
  shows "\<exists>tr. QF_publish Q M s e = (tr, None) \<and>
           calls tr = (if poolId e \<noteq> 0 then [RefCtrInc] else [])
             @ lock_part 0xFF (subscr_prios M s (sig e))
             @ map Post (subscr_prios M s (sig e))
             @ (if subscr_prios M s (sig e) \<noteq> [] then [SchedUnlock] else []) @ [Gc]"
proof -
  from reg have all: "list_all (\<lambda>p. QF_active s p \<noteq> None) (subscr_prios M s (sig e))"
    by (simp add: subscribers_registered_def)
  from publish_calls_closed [OF wf clear sg] obtain tr
    where "QF_publish Q M s e = (tr, None)"
      and "calls tr = (if poolId e \<noteq> 0 then [RefCtrInc] else [])
             @ lock_part 0xFF (subscr_prios M s (sig e))
             @ map Post (takeWhile (\<lambda>p. QF_active s p \<noteq> None) (subscr_prios M s (sig e)))
             @ (if subscr_prios M s (sig e) \<noteq> [] then [SchedUnlock] else []) @ [Gc]"
    unfolding if_P [OF reg] by blast
  then show ?thesis
    unfolding takeWhile_all [OF all] by blast
qed

section \<open>The subscribers as a set and their order\<close>

lemma bits_desc_sorted: "sorted_wrt (>) (bits_desc x)"
  unfolding bits_desc_def by (rule sorted_wrt_filter) simp

lemma bits_desc_set: "b \<in> set (bits_desc x) \<longleftrightarrow> 0 < b \<and> b \<le> 8 \<and> bit x (b - 1)"
proof -
  have "b \<in> set [8, 7, 6, 5, 4, 3, 2, 1 :: nat] \<longleftrightarrow> 0 < b \<and> b \<le> 8"
    by (simp del: One_nat_def) arith
  then show ?thesis
    unfolding bits_desc_def set_filter by blast
qed

lemma byte_prios_sorted: "sorted_wrt (>) (byte_prios i x)"
  unfolding byte_prios_def using bits_desc_sorted [of x]
  by (simp add: sorted_wrt_map)

lemma byte_prios_set:
  "p \<in> set (byte_prios i x) \<longleftrightarrow> 0 < p \<and> (p - 1) div 8 = i \<and> bit x ((p - 1) mod 8)"
proof
  assume "p \<in> set (byte_prios i x)"
  then obtain b where b: "0 < b" "b \<le> 8" "bit x (b - 1)" and p: "p = b + 8 * i"
    by (auto simp: byte_prios_def bits_desc_set)
  from b(1,2) obtain c where c: "b = Suc c" "c < 8"
    by (cases b) auto
  then have "(b + 8 * i - 1) div 8 = i" "(b + 8 * i - 1) mod 8 = b - 1"
    by simp_all
  with b p show "0 < p \<and> (p - 1) div 8 = i \<and> bit x ((p - 1) mod 8)"
    by simp
next
  assume a: "0 < p \<and> (p - 1) div 8 = i \<and> bit x ((p - 1) mod 8)"
  define b where "b = (p - 1) mod 8 + 1"
  have "0 < b" "b \<le> 8" "bit x (b - 1)" using a by (simp_all add: b_def)
  moreover have "p = b + 8 * i"
    using a by (auto simp: b_def)
  ultimately show "p \<in> set (byte_prios i x)"
    by (auto simp: byte_prios_def bits_desc_set)
qed

lemma row_prios_set:
  "p \<in> set (row_prios row n) \<longleftrightarrow>
     0 < p \<and> (p - 1) div 8 < n \<and> bit (row ! ((p - 1) div 8)) ((p - 1) mod 8)"
  by (induction n) (auto simp: row_prios_Suc byte_prios_set less_Suc_eq)

lemma row_prios_sorted: "sorted_wrt (>) (row_prios row n)"
proof (induction n)
  case 0
  show ?case by simp
next
  case (Suc n)
  have "q < p" if "p \<in> set (byte_prios n (row ! n))" "q \<in> set (row_prios row n)" for p q
  proof -
    from that(1) have "(p - 1) div 8 = n" "0 < p" by (simp_all add: byte_prios_set)
    moreover from that(2) have "(q - 1) div 8 < n" "0 < q" by (simp_all add: row_prios_set)
    ultimately show ?thesis by auto
  qed
  with Suc show ?case
    by (simp add: row_prios_Suc sorted_wrt_append byte_prios_sorted)
qed

lemma is_subscribed_iff:
  "0 < p \<Longrightarrow>
     is_subscribed s sg p \<longleftrightarrow> bit (QF_subscrList s ! sg ! ((p - 1) div 8)) ((p - 1) mod 8)"
  by (simp add: is_subscribed_def get_bits_def QF_div8Lkup_def QF_pwr2Lkup_def
        and_exp_eq_0_iff_not_bit)

lemma div8_le_Q_DIM: "0 < p \<Longrightarrow> p \<le> M \<Longrightarrow> (p - 1) div 8 < Q_DIM_bits M"
  by (simp add: Q_DIM_bits_def less_Suc_eq_le div_le_mono)

lemma subscr_prios_set:
  assumes "wf_registry M s" "bits_above_clear M s" "sg < QF_maxSignal s"
  shows "set (subscr_prios M s sg) = {p. 0 < p \<and> p \<le> M \<and> is_subscribed s sg p}"
proof (rule set_eqI)
  fix p
  show "p \<in> set (subscr_prios M s sg) \<longleftrightarrow> p \<in> {p. 0 < p \<and> p \<le> M \<and> is_subscribed s sg p}"
  proof
    assume p: "p \<in> set (subscr_prios M s sg)"
    from subscr_prios_le [OF assms p] have "p \<le> M" .
    with p show "p \<in> {p. 0 < p \<and> p \<le> M \<and> is_subscribed s sg p}"
      by (simp add: subscr_prios_def row_prios_set is_subscribed_iff)
  next
    assume "p \<in> {p. 0 < p \<and> p \<le> M \<and> is_subscribed s sg p}"
    then show "p \<in> set (subscr_prios M s sg)"
      using div8_le_Q_DIM [of p M]
      by (auto simp: subscr_prios_def row_prios_set is_subscribed_iff)
  qed
qed

lemma subscr_prios_sorted: "sorted_wrt (>) (subscr_prios M s sg)"
  by (simp add: subscr_prios_def row_prios_sorted)

section \<open>The enqueues of one publication\<close>

lemma posts_append [simp]: "posts (xs @ ys) = posts xs @ posts ys"
  by (simp add: posts_def)

lemma posts_simps [simp]:
  "posts [] = []"
  "posts (Post p # tr) = p # posts tr"
  "posts (RegRead sg i # tr) = posts tr"
  "posts (SchedLock q # tr) = posts tr"
  "posts (RefCtrInc # tr) = posts tr"
  "posts (SchedUnlock # tr) = posts tr"
  "posts (Gc # tr) = posts tr"
  by (simp_all add: posts_def)

lemma posts_map_Post [simp]: "posts (map Post ps) = ps"
  by (induction ps) simp_all

lemma posts_calls: "posts (calls tr) = posts tr"
proof (induction tr)
  case Nil
  show ?case by simp
next
  case (Cons a tr)
  then show ?case by (cases a) simp_all
qed

lemma posts_lock_part [simp]: "posts (lock_part lk ps) = []"
  by (simp add: lock_part_def)


lemma publish_posts:
  assumes "wf_registry M s" "bits_above_clear M s" "sig e < to_QSignal Q (QF_maxSignal s)"
    "subscribers_registered M s (sig e)"
  shows "snd (QF_publish Q M s e) = None \<and>
         posts (fst (QF_publish Q M s e)) = subscr_prios M s (sig e)"
proof -
  from publish_calls [OF assms] obtain tr where tr: "QF_publish Q M s e = (tr, None)"
    and c: "calls tr = (if poolId e \<noteq> 0 then [RefCtrInc] else [])
             @ lock_part 0xFF (subscr_prios M s (sig e))
             @ map Post (subscr_prios M s (sig e))
             @ (if subscr_prios M s (sig e) \<noteq> [] then [SchedUnlock] else []) @ [Gc]"
    by blast
  have "posts tr = posts (calls tr)" by (simp add: posts_calls)
  also have "\<dots> = subscr_prios M s (sig e)" by (simp add: c)
  finally show ?thesis using tr by simp
qed





section \<open>Highest priority first\<close>



section \<open>The scheduler lock and the assertions of one publication\<close>


lemma sched_calls_append [simp]: "sched_calls (xs @ ys) = sched_calls xs @ sched_calls ys"
  by (simp add: sched_calls_def)

lemma sched_calls_map_Post [simp]: "sched_calls (map Post ps) = map Post ps"
  by (induction ps) (simp_all add: sched_calls_def)

lemma sched_calls_simps [simp]:
  "sched_calls [] = []"
  "sched_calls (Gc # tr) = sched_calls tr"
  "sched_calls (RefCtrInc # tr) = sched_calls tr"
  "sched_calls (RegRead sg i # tr) = sched_calls tr"
  "sched_calls (Post p # tr) = Post p # sched_calls tr"
  "sched_calls (SchedUnlock # tr) = SchedUnlock # sched_calls tr"
  "sched_calls (SchedLock p # tr) = SchedLock p # sched_calls tr"
  by (simp_all add: sched_calls_def)




section \<open>The reference-counting calls of one publication\<close>

lemma ref_calls_calls: "ref_calls (calls tr) = ref_calls tr"
proof (induction tr)
  case Nil
  show ?case by (simp add: calls_def)
next
  case (Cons a tr)
  then show ?case by (cases a) (simp_all add: ref_calls_def)
qed

lemma ref_calls_append [simp]: "ref_calls (xs @ ys) = ref_calls xs @ ref_calls ys"
  by (simp add: ref_calls_def)

lemma ref_calls_map_Post [simp]: "ref_calls (map Post ps) = map Post ps"
  by (induction ps) (simp_all add: ref_calls_def)

lemma ref_calls_simps [simp]:
  "ref_calls [] = []"
  "ref_calls (Gc # tr) = Gc # ref_calls tr"
  "ref_calls (RefCtrInc # tr) = RefCtrInc # ref_calls tr"
  "ref_calls (Post p # tr) = Post p # ref_calls tr"
  "ref_calls (SchedUnlock # tr) = ref_calls tr"
  "ref_calls (SchedLock p # tr) = ref_calls tr"
  "ref_calls (RegRead sg i # tr) = ref_calls tr"
  by (simp_all add: ref_calls_def)

lemma count_ref_calls:
  "count_list (ref_calls tr) RefCtrInc = count_list tr RefCtrInc"
  "count_list (ref_calls tr) Gc = count_list tr Gc"
  by (induction tr) (simp_all add: ref_calls_def)

lemma count_map_Post [simp]:
  "count_list (map Post ps) RefCtrInc = 0" "count_list (map Post ps) Gc = 0"
  by (induction ps) simp_all

lemma core_refs_calls: "core_refs (calls tr) eb = core_refs tr eb"
proof (induction tr arbitrary: eb)
  case Nil
  show ?case by simp
next
  case (Cons a tr)
  then show ?case by (cases a; cases eb) simp_all
qed

lemma sorted_desc_distinct: "sorted_wrt (>) (ps :: nat list) \<Longrightarrow> distinct ps"
  by (induction ps) auto

lemma QF_gc_after_inc:
  "poolId e \<noteq> 0 \<Longrightarrow> QF_gc (QF_EVT_REF_CTR_INC e) = (e, refCtr e = 0)"
  by (simp add: QF_gc_def QF_EVT_REF_CTR_INC_def Let_def)

section \<open>Reference counting of a published event\<close>

text \<open>
  Claim C2, as amended. A call of \<^verbatim>\<open>QF_publish_\<close> on a pool-managed event that passes
  its assertions (the signal is below \<^verbatim>\<open>(QSignal)QF_maxSignal_\<close>, assertion 200, and every
  subscriber is in the directory, assertions 210 and 220) and whose enqueues do not
  overflow a queue (the assertion of \<^verbatim>\<open>QACTIVE_POST\<close>, outside the file) makes exactly one
  increment of the reference counter, before every enqueue, and exactly one call of the
  garbage collector, after every enqueue, whatever the number of subscribers, and one
  enqueue for each subscriber. With no subscriber there is no enqueue, the counter is
  after the call what it was before it, and the event is reclaimed exactly when the
  counter was 0 before the call (1 after the increment).
\<close>

theorem publish_ref_counting:
  assumes "wf_registry M s" and "bits_above_clear M s" and "sig e < to_QSignal Q (QF_maxSignal s)"
    and "subscribers_registered M s (sig e)" and "poolId e \<noteq> 0"
  shows "snd (QF_publish Q M s e) = None \<and>
         count_list (fst (QF_publish Q M s e)) RefCtrInc = 1 \<and>
         count_list (fst (QF_publish Q M s e)) Gc = 1 \<and>
         ref_calls (fst (QF_publish Q M s e)) =
           RefCtrInc # map Post (posts (fst (QF_publish Q M s e))) @ [Gc] \<and>
         length (posts (fst (QF_publish Q M s e))) =
           card {p. 0 < p \<and> p \<le> M \<and> is_subscribed s (sig e) p} \<and>
         ({p. 0 < p \<and> p \<le> M \<and> is_subscribed s (sig e) p} = {} \<longrightarrow>
            posts (fst (QF_publish Q M s e)) = [] \<and>
            core_refs (fst (QF_publish Q M s e)) (e, False) = (e, refCtr e = 0))"
proof -
  define ps where "ps = subscr_prios M s (sig e)"
  from publish_calls [OF assms(1-4)] assms(5) obtain tr where tr: "QF_publish Q M s e = (tr, None)"
    and c: "calls tr = [RefCtrInc] @ lock_part 0xFF ps @ map Post ps
              @ (if ps \<noteq> [] then [SchedUnlock] else []) @ [Gc]"
    unfolding ps_def by auto
  have posts: "posts tr = ps"
    using publish_posts [OF assms(1-4)] tr by (simp add: ps_def)
  have subs: "set ps = {p. 0 < p \<and> p \<le> M \<and> is_subscribed s (sig e) p}"
    unfolding ps_def by (rule subscr_prios_set [OF assms(1,2) sig_below_maxSignal [OF assms(3)]])
  have "ref_calls tr = ref_calls (calls tr)"
    by (simp add: ref_calls_calls)
  also have "\<dots> = RefCtrInc # map Post ps @ [Gc]"
    by (simp add: c lock_part_def)
  finally have rc: "ref_calls tr = RefCtrInc # map Post ps @ [Gc]" .
  have inc: "count_list tr RefCtrInc = 1"
    using count_ref_calls(1) [of tr] by (simp add: rc)
  have gc: "count_list tr Gc = 1"
    using count_ref_calls(2) [of tr] by (simp add: rc)
  have "distinct ps"
    unfolding ps_def by (rule sorted_desc_distinct [OF subscr_prios_sorted])
  then have len: "length ps = card {p. 0 < p \<and> p \<le> M \<and> is_subscribed s (sig e) p}"
    using subs distinct_card [of ps] by simp
  have zero: "core_refs tr (e, False) = (e, refCtr e = 0)" if "ps = []"
  proof -
    have "core_refs tr (e, False) = core_refs (calls tr) (e, False)"
      by (simp add: core_refs_calls)
    also have "\<dots> = QF_gc (QF_EVT_REF_CTR_INC e)"
      using that by (simp add: c lock_part_def)
    finally show ?thesis
      using assms(5) by (simp add: QF_gc_after_inc)
  qed
  have "ps = []" if "{p. 0 < p \<and> p \<le> M \<and> is_subscribed s (sig e) p} = {}"
    using that unfolding subs [symmetric] by (simp only: set_empty)
  with zero tr posts rc inc gc len show ?thesis
    by simp
qed

theorem publish_ref_counting_witness:
  "(wf_registry 8 ex8 \<and> bits_above_clear 8 ex8 \<and> sig (ex_evt 5 1 0) < to_QSignal 2 (QF_maxSignal ex8) \<and>
    subscribers_registered 8 ex8 (sig (ex_evt 5 1 0)) \<and> poolId (ex_evt 5 1 0) \<noteq> 0 \<and>
    {p. 0 < p \<and> p \<le> 8 \<and> is_subscribed ex8 (sig (ex_evt 5 1 0)) p} = {} \<and>
    snd (QF_publish 2 8 ex8 (ex_evt 5 1 0)) = None \<and>
    count_list (fst (QF_publish 2 8 ex8 (ex_evt 5 1 0))) RefCtrInc = 1 \<and>
    count_list (fst (QF_publish 2 8 ex8 (ex_evt 5 1 0))) Gc = 1 \<and>
    posts (fst (QF_publish 2 8 ex8 (ex_evt 5 1 0))) = [] \<and>
    core_refs (fst (QF_publish 2 8 ex8 (ex_evt 5 1 0))) (ex_evt 5 1 0, False) =
      (ex_evt 5 1 0, True)) \<and>
   (wf_registry 8 ex8 \<and> bits_above_clear 8 ex8 \<and> sig (ex_evt 6 1 0) < to_QSignal 2 (QF_maxSignal ex8) \<and>
    subscribers_registered 8 ex8 (sig (ex_evt 6 1 0)) \<and> poolId (ex_evt 6 1 0) \<noteq> 0 \<and>
    card {p. 0 < p \<and> p \<le> 8 \<and> is_subscribed ex8 (sig (ex_evt 6 1 0)) p} = 3 \<and>
    snd (QF_publish 2 8 ex8 (ex_evt 6 1 0)) = None \<and>
    count_list (fst (QF_publish 2 8 ex8 (ex_evt 6 1 0))) RefCtrInc = 1 \<and>
    count_list (fst (QF_publish 2 8 ex8 (ex_evt 6 1 0))) Gc = 1 \<and>
    ref_calls (fst (QF_publish 2 8 ex8 (ex_evt 6 1 0))) = [RefCtrInc, Post 7, Post 5, Post 2, Gc])"
proof -
  have wf: "wf_registry 8 ex8"
    by (simp add: wf_registry_def ex8_def Q_DIM_bits_def)
  have clear: "bits_above_clear 8 ex8"
    by (simp add: bits_above_clear_def ex8_def row_prios_def byte_prios_def bits_desc_def)
  have sg5: "sig (ex_evt 5 1 0) < to_QSignal 2 (QF_maxSignal ex8)" and sg6: "sig (ex_evt 6 1 0) < to_QSignal 2 (QF_maxSignal ex8)"
    by (simp_all add: ex_evt_def ex8_def to_QSignal_def)
  have none: "subscr_prios 8 ex8 (sig (ex_evt 5 1 0)) = []"
    by (simp add: subscr_prios_def Q_DIM_bits_def ex8_def ex_evt_def row_prios_def)
  then have reg5: "subscribers_registered 8 ex8 (sig (ex_evt 5 1 0))"
    by (simp add: subscribers_registered_def)
  have reg6: "subscribers_registered 8 ex8 (sig (ex_evt 6 1 0))"
    by (simp add: subscribers_registered_def subscr_prios_def Q_DIM_bits_def ex8_def ex_evt_def
          row_prios_def byte_prios_def bits_desc_def ex_dir_def)
  have pool: "poolId (ex_evt 5 1 0) \<noteq> 0" "poolId (ex_evt 6 1 0) \<noteq> 0"
    by (simp_all add: ex_evt_def)
  have empty: "{p. 0 < p \<and> p \<le> 8 \<and> is_subscribed ex8 (sig (ex_evt 5 1 0)) p} = {}"
    using subscr_prios_set [OF wf clear sig_below_maxSignal [OF sg5]] none by simp
  have cnt: "refCtr (ex_evt 5 1 0) = 0"
    by (simp add: ex_evt_def)
  have posts6: "posts (fst (QF_publish 2 8 ex8 (ex_evt 6 1 0))) = [7, 5, 2]"
    by code_simp
  from publish_ref_counting [OF wf clear sg5 reg5 pool(1)] empty cnt
  have first: "snd (QF_publish 2 8 ex8 (ex_evt 5 1 0)) = None \<and>
    count_list (fst (QF_publish 2 8 ex8 (ex_evt 5 1 0))) RefCtrInc = 1 \<and>
    count_list (fst (QF_publish 2 8 ex8 (ex_evt 5 1 0))) Gc = 1 \<and>
    posts (fst (QF_publish 2 8 ex8 (ex_evt 5 1 0))) = [] \<and>
    core_refs (fst (QF_publish 2 8 ex8 (ex_evt 5 1 0))) (ex_evt 5 1 0, False) =
      (ex_evt 5 1 0, True)"
    by simp
  from publish_ref_counting [OF wf clear sg6 reg6 pool(2)]
  have second: "card {p. 0 < p \<and> p \<le> 8 \<and> is_subscribed ex8 (sig (ex_evt 6 1 0)) p} = 3 \<and>
    snd (QF_publish 2 8 ex8 (ex_evt 6 1 0)) = None \<and>
    count_list (fst (QF_publish 2 8 ex8 (ex_evt 6 1 0))) RefCtrInc = 1 \<and>
    count_list (fst (QF_publish 2 8 ex8 (ex_evt 6 1 0))) Gc = 1 \<and>
    ref_calls (fst (QF_publish 2 8 ex8 (ex_evt 6 1 0))) = [RefCtrInc, Post 7, Post 5, Post 2, Gc]"
    unfolding posts6 by simp
  from first second wf clear sg5 sg6 reg5 reg6 pool empty show ?thesis
    by blast
qed

text \<open>
  The claim as it is written fails for an event whose counter is 1 when it is published:
  with no subscriber the counter is 1 again after the call and the event is not reclaimed.
\<close>

theorem publish_refcount_one_counterexample:
  "poolId (ex_evt 5 1 1) \<noteq> 0 \<and> refCtr (ex_evt 5 1 1) = 1 \<and>
   subscr_prios 8 ex8 (sig (ex_evt 5 1 1)) = [] \<and>
   QF_publish 2 8 ex8 (ex_evt 5 1 1) = ([RefCtrInc, RegRead 5 0, Gc], None) \<and>
   refCtr (fst (core_refs (fst (QF_publish 2 8 ex8 (ex_evt 5 1 1))) (ex_evt 5 1 1, False))) = 1 \<and>
   \<not> snd (core_refs (fst (QF_publish 2 8 ex8 (ex_evt 5 1 1))) (ex_evt 5 1 1, False))"
proof -
  have "QF_publish 2 8 ex8 (ex_evt 5 1 1) = ([RefCtrInc, RegRead 5 0, Gc], None)"
    by code_simp
  moreover have "subscr_prios 8 ex8 (sig (ex_evt 5 1 1)) = []"
    by (simp add: subscr_prios_def Q_DIM_bits_def ex8_def ex_evt_def row_prios_def)
  ultimately show ?thesis
    by (simp add: ex_evt_def QF_gc_def QF_EVT_REF_CTR_INC_def)
qed

section \<open>The scheduler lock\<close>



section \<open>The range of the published signal\<close>




section \<open>Setting and clearing the bit of a priority\<close>

lemma QF_active_set_bits [simp]: "QF_active (set_bits s sg i v) = QF_active s"
  by (simp add: set_bits_def)

lemma length_set_bits [simp]:
  "length (QF_subscrList (set_bits s sg i v)) = length (QF_subscrList s)"
  by (simp add: set_bits_def)

lemma nth_update_total: "xs[i := v] ! j = (if j = i \<and> i < length xs then v else xs ! j)"
proof (cases "i < length xs")
  case True
  then show ?thesis by (simp add: nth_list_update)
next
  case False
  then show ?thesis by (simp add: list_update_beyond)
qed

lemma row_set_bits:
  "QF_subscrList (set_bits s sg i v) ! k =
     (if k = sg \<and> sg < length (QF_subscrList s) then (QF_subscrList s ! sg)[i := v]
      else QF_subscrList s ! k)"
  by (simp add: set_bits_def nth_update_total)

lemma get_set_bits:
  "get_bits (set_bits s sg i v) k j =
     (if k = sg \<and> sg < length (QF_subscrList s) \<and> j = i \<and> i < length (QF_subscrList s ! sg)
      then v else get_bits s k j)"
  by (simp add: get_bits_def row_set_bits nth_update_total)

lemma set_bits_out_of_range:
  "\<not> (sg < length (QF_subscrList s) \<and> i < length (QF_subscrList s ! sg)) \<Longrightarrow>
     set_bits s sg i v = s"
  by (auto simp: set_bits_def list_update_beyond)

lemma set_bits_twice [simp]: "set_bits (set_bits s sg i v) sg i w = set_bits s sg i w"
  by (cases "sg < length (QF_subscrList s)") (simp_all add: set_bits_def list_update_beyond)

lemma set_bits_same: "set_bits s sg i (get_bits s sg i) = s"
  by (simp add: set_bits_def get_bits_def)

lemma or_pwr2_idem: "(x OR m) OR m = x OR (m :: u8)"
  by (simp add: or.assoc)

lemma and_inv_clears: "(x AND QF_invPwr2Lkup p) AND QF_pwr2Lkup p = 0"
  by (simp add: QF_invPwr2Lkup_def and.assoc)

lemma and_inv_or: "(x OR QF_pwr2Lkup p) AND QF_invPwr2Lkup p = x AND QF_invPwr2Lkup p"
  by (simp add: QF_invPwr2Lkup_def bit_eq_iff bit_and_iff bit_or_iff bit_not_iff) blast

lemma and_inv_unset: "x AND QF_pwr2Lkup p = 0 \<Longrightarrow> x AND QF_invPwr2Lkup p = x"
  by (auto simp: QF_invPwr2Lkup_def bit_eq_iff bit_and_iff bit_not_iff)

lemma bit_pwr2: "0 < p \<Longrightarrow> bit (QF_pwr2Lkup p) b \<longleftrightarrow> b = (p - 1) mod 8"
  by (auto simp: QF_pwr2Lkup_def bit_exp_iff)

lemma bit_and_inv:
  "0 < p \<Longrightarrow> bit (x AND QF_invPwr2Lkup p) b \<longleftrightarrow> bit x b \<and> b \<noteq> (p - 1) mod 8"
  using bit_imp_le_length [of x b]
  by (auto simp: QF_invPwr2Lkup_def bit_and_iff bit_not_iff bit_pwr2)


lemma prio_position_inj:
  "0 < p \<Longrightarrow> 0 < q \<Longrightarrow> (p - 1) div 8 = (q - 1) div 8 \<Longrightarrow> (p - 1) mod 8 = (q - 1) mod 8 \<Longrightarrow>
     p = (q :: nat)"
proof -
  assume a: "0 < p" "0 < q" "(p - 1) div 8 = (q - 1) div 8" "(p - 1) mod 8 = (q - 1) mod 8"
  have "p - 1 = 8 * ((p - 1) div 8) + (p - 1) mod 8" by simp
  also have "\<dots> = 8 * ((q - 1) div 8) + (q - 1) mod 8" using a by simp
  also have "\<dots> = q - 1" by simp
  finally show ?thesis using a by simp
qed

lemma is_subscribed_set_bits_other:
  assumes "q \<noteq> p" "0 < p"
    and v: "\<And>b. b \<noteq> (p - 1) mod 8 \<Longrightarrow> bit v b = bit (get_bits s sg (QF_div8Lkup p)) b"
  shows "is_subscribed (set_bits s sg (QF_div8Lkup p) v) k q = is_subscribed s k q"
proof (cases "q = 0")
  case True
  then show ?thesis by (simp add: is_subscribed_def QF_pwr2Lkup_def)
next
  case False
  then have q: "0 < q" by simp
  show ?thesis
  proof (cases "k = sg \<and> sg < length (QF_subscrList s) \<and> QF_div8Lkup q = QF_div8Lkup p
      \<and> QF_div8Lkup p < length (QF_subscrList s ! sg)")
    case True
    with assms(1,2) q have "(q - 1) mod 8 \<noteq> (p - 1) mod 8"
      using prio_position_inj [of q p] by (auto simp: QF_div8Lkup_def)
    from v [OF this] True q show ?thesis
      by (simp add: is_subscribed_def get_set_bits QF_pwr2Lkup_def and_exp_eq_0_iff_not_bit)
  next
    case False
    then show ?thesis
      by (auto simp: is_subscribed_def get_set_bits)
  qed
qed

section \<open>The loop of QActive\_unsubscribeAll\<close>

lemma unsubscribeAll_loop_fields:
  "QF_maxSignal (unsubscribeAll_loop p i s sg0) = QF_maxSignal s \<and>
   QF_active (unsubscribeAll_loop p i s sg0) = QF_active s \<and>
   length (QF_subscrList (unsubscribeAll_loop p i s sg0)) = length (QF_subscrList s)"
proof (induction p i s sg0 rule: unsubscribeAll_loop.induct)
  case (1 p i s sg)
  show ?case
  proof (cases "sg < QF_maxSignal s")
    case True
    with "1.IH" [OF True] show ?thesis
      by (subst (1 2 3) unsubscribeAll_loop.simps) (simp split: if_splits)
  next
    case False
    then show ?thesis
      by (subst (1 2 3) unsubscribeAll_loop.simps) simp
  qed
qed

lemma unsubscribeAll_loop_rows:
  "QF_subscrList (unsubscribeAll_loop p i s sg0) ! k =
     (if sg0 \<le> k \<and> k < QF_maxSignal s \<and> k < length (QF_subscrList s)
      then (QF_subscrList s ! k)[i := QF_subscrList s ! k ! i AND QF_invPwr2Lkup p]
      else QF_subscrList s ! k)"
proof (induction p i s sg0 arbitrary: k rule: unsubscribeAll_loop.induct)
  case (1 p i s sg)
  show ?case
  proof (cases "sg < QF_maxSignal s")
    case False
    then show ?thesis
      by (subst unsubscribeAll_loop.simps) auto
  next
    case True
    define x where "x = get_bits s sg i"
    define s' where "s' = (if x AND QF_pwr2Lkup p \<noteq> 0
        then set_bits s sg i (x AND QF_invPwr2Lkup p) else s)"
    have unfold: "unsubscribeAll_loop p i s sg = unsubscribeAll_loop p i s' (sg + 1)"
      using True by (subst unsubscribeAll_loop.simps) (simp add: s'_def x_def)
    have x_inv: "x AND QF_pwr2Lkup p = 0 \<Longrightarrow> x AND QF_invPwr2Lkup p = x"
      by (rule and_inv_unset)
    have rows': "QF_subscrList s' ! k =
        (if k = sg \<and> sg < length (QF_subscrList s)
         then (QF_subscrList s ! sg)[i := QF_subscrList s ! sg ! i AND QF_invPwr2Lkup p]
         else QF_subscrList s ! k)" for k
      using x_inv by (auto simp: s'_def row_set_bits x_def get_bits_def)
    have fields': "QF_maxSignal s' = QF_maxSignal s" "length (QF_subscrList s') = length (QF_subscrList s)"
      by (simp_all add: s'_def)
    have IH: "QF_subscrList (unsubscribeAll_loop p i s' (sg + 1)) ! k =
        (if sg + 1 \<le> k \<and> k < QF_maxSignal s' \<and> k < length (QF_subscrList s')
         then (QF_subscrList s' ! k)[i := QF_subscrList s' ! k ! i AND QF_invPwr2Lkup p]
         else QF_subscrList s' ! k)"
      unfolding s'_def x_def by (rule "1.IH" [OF True])
    show ?thesis
      unfolding unfold IH fields' rows' using True by auto
  qed
qed

lemma unsubscribeAll_loop_get_bits:
  "get_bits (unsubscribeAll_loop p i s sg0) k j =
     (if sg0 \<le> k \<and> k < QF_maxSignal s \<and> k < length (QF_subscrList s) \<and> j = i
         \<and> i < length (QF_subscrList s ! k)
      then get_bits s k i AND QF_invPwr2Lkup p else get_bits s k j)"
  by (simp add: get_bits_def unsubscribeAll_loop_rows nth_update_total)

section \<open>Subscribing twice\<close>

text \<open>
  Claim C6. For a registered active object and a signal in range, a second call of
  \<^verbatim>\<open>QActive_subscribe\<close> right after the first one passes its assertion as the first did
  and leaves the whole state, the registry included, as the first call left it.
\<close>

theorem subscribe_idempotent:
  assumes "Q_USER_SIG \<le> sg" and "sg < QF_maxSignal s" and "0 < prio me" and "prio me \<le> M"
    and "QF_active s (prio me) = Some (addr me)"
  shows "\<exists>s1. QActive_subscribe M s me sg = Inr s1 \<and> QActive_subscribe M s1 me sg = Inr s1"
proof -
  define i where "i = QF_div8Lkup (prio me)"
  define v where "v = get_bits s sg i OR QF_pwr2Lkup (prio me)"
  define s1 where "s1 = set_bits s sg i v"
  have first: "QActive_subscribe M s me sg = Inr s1"
    using assms by (simp add: QActive_subscribe_def Let_def s1_def v_def i_def)
  have again: "set_bits s1 sg i (get_bits s1 sg i OR QF_pwr2Lkup (prio me)) = s1"
  proof (cases "sg < length (QF_subscrList s) \<and> i < length (QF_subscrList s ! sg)")
    case True
    then have "get_bits s1 sg i = v"
      by (simp add: s1_def get_set_bits)
    then show ?thesis
      by (simp add: s1_def v_def or_pwr2_idem)
  next
    case False
    then have "s1 = s" by (simp add: s1_def set_bits_out_of_range)
    with False show ?thesis by (simp add: set_bits_out_of_range)
  qed
  have "QActive_subscribe M s1 me sg = Inr s1"
    using assms again by (simp add: QActive_subscribe_def Let_def s1_def i_def)
  with first show ?thesis by blast
qed

theorem subscribe_idempotent_witness:
  "Q_USER_SIG \<le> 6 \<and> 6 < QF_maxSignal ex8 \<and> 0 < prio (ex_ao 3) \<and> prio (ex_ao 3) \<le> 8 \<and>
   QF_active ex8 (prio (ex_ao 3)) = Some (addr (ex_ao 3)) \<and>
   (\<exists>s1. QActive_subscribe 8 ex8 (ex_ao 3) 6 = Inr s1 \<and> QActive_subscribe 8 s1 (ex_ao 3) 6 = Inr s1
      \<and> QF_subscrList s1 ! 6 = [0x56])"
proof -
  have pre: "Q_USER_SIG \<le> 6" "6 < QF_maxSignal ex8" "0 < prio (ex_ao 3)" "prio (ex_ao 3) \<le> 8"
    "QF_active ex8 (prio (ex_ao 3)) = Some (addr (ex_ao 3))"
    by (simp_all add: Q_USER_SIG_def ex8_def ex_ao_def ex_dir_def)
  from subscribe_idempotent [OF pre] obtain s1
    where s1: "QActive_subscribe 8 ex8 (ex_ao 3) 6 = Inr s1"
      "QActive_subscribe 8 s1 (ex_ao 3) 6 = Inr s1"
    by blast
  have "QF_subscrList s1 ! 6 = [0x56]"
    using s1(1)
    by (auto simp: QActive_subscribe_def Let_def Q_USER_SIG_def ex8_def ex_ao_def ex_dir_def
          set_bits_def get_bits_def QF_div8Lkup_def QF_pwr2Lkup_def)
  with s1 pre show ?thesis by blast
qed

section \<open>Subscribing and unsubscribing\<close>

text \<open>
  Claim C7. For a registered active object and a signal in range, on a registry of the
  configured shape, \<^verbatim>\<open>QActive_subscribe\<close> followed by \<^verbatim>\<open>QActive_unsubscribe\<close> passes
  both assertions and leaves the bit of this active object for this signal clear. No other
  pair of signal and priority changes its subscription, no other bit of the storage
  changes, and if the active object was not subscribed before, the state is the one before
  the two calls.
\<close>

theorem subscribe_unsubscribe_inverse:
  assumes "wf_registry M s" and "Q_USER_SIG \<le> sg" and "sg < QF_maxSignal s"
    and "0 < prio me" and "prio me \<le> M" and "QF_active s (prio me) = Some (addr me)"
  shows "\<exists>s1 s2. QActive_subscribe M s me sg = Inr s1 \<and> QActive_unsubscribe M s1 me sg = Inr s2 \<and>
           \<not> is_subscribed s2 sg (prio me) \<and>
           (\<forall>sg' q. (sg', q) \<noteq> (sg, prio me) \<longrightarrow> is_subscribed s2 sg' q = is_subscribed s sg' q) \<and>
           (\<forall>sg' j b. \<not> (sg' = sg \<and> j = QF_div8Lkup (prio me) \<and> b = (prio me - 1) mod 8) \<longrightarrow>
              bit (get_bits s2 sg' j) b = bit (get_bits s sg' j) b) \<and>
           (\<not> is_subscribed s sg (prio me) \<longrightarrow> s2 = s) \<and>
           QF_maxSignal s2 = QF_maxSignal s \<and> QF_active s2 = QF_active s"
proof -
  define p where "p = prio me"
  define i where "i = QF_div8Lkup p"
  define x where "x = get_bits s sg i"
  define s1 where "s1 = set_bits s sg i (x OR QF_pwr2Lkup p)"
  define s2 where "s2 = set_bits s sg i (x AND QF_invPwr2Lkup p)"
  have p: "0 < p" "p \<le> M" using assms by (simp_all add: p_def)
  have sg: "sg < length (QF_subscrList s)"
    using assms(1,3) by (simp add: wf_registry_def)
  then have "QF_subscrList s ! sg \<in> set (QF_subscrList s)" by simp
  then have "length (QF_subscrList s ! sg) = Q_DIM_bits M"
    using assms(1) by (simp add: wf_registry_def list_all_iff)
  with div8_le_Q_DIM [OF p] have i: "i < length (QF_subscrList s ! sg)"
    by (simp add: i_def QF_div8Lkup_def)
  have first: "QActive_subscribe M s me sg = Inr s1"
    using assms by (simp add: QActive_subscribe_def Let_def s1_def x_def i_def p_def)
  have "get_bits s1 sg i = x OR QF_pwr2Lkup p"
    using sg i by (simp add: s1_def get_set_bits)
  then have second: "QActive_unsubscribe M s1 me sg = Inr s2"
    using assms
    by (simp add: QActive_unsubscribe_def Let_def s1_def s2_def i_def [symmetric]
          p_def [symmetric] and_inv_or)
  have cleared: "\<not> is_subscribed s2 sg p"
    using sg i by (simp add: is_subscribed_def s2_def i_def [symmetric] get_set_bits and_inv_clears)
  have v: "bit (x AND QF_invPwr2Lkup p) b = bit (get_bits s sg (QF_div8Lkup p)) b"
    if "b \<noteq> (p - 1) mod 8" for b
    using that p(1) by (simp add: bit_and_inv x_def i_def)
  have others: "is_subscribed s2 sg' q = is_subscribed s sg' q" if "(sg', q) \<noteq> (sg, p)" for sg' q
  proof (cases "q = p")
    case True
    with that have "sg' \<noteq> sg" by simp
    then show ?thesis
      by (simp add: is_subscribed_def s2_def get_set_bits)
  next
    case False
    from is_subscribed_set_bits_other [OF False p(1) v] show ?thesis
      by (simp add: s2_def i_def)
  qed
  have raw: "bit (get_bits s2 sg' j) b = bit (get_bits s sg' j) b"
    if "\<not> (sg' = sg \<and> j = QF_div8Lkup p \<and> b = (p - 1) mod 8)" for sg' j b
    using that v [of b] by (auto simp: s2_def i_def get_set_bits)
  have same: "s2 = s" if "\<not> is_subscribed s sg p"
  proof -
    from that have "x AND QF_pwr2Lkup p = 0"
      by (simp add: is_subscribed_def x_def i_def)
    then have "x AND QF_invPwr2Lkup p = x" by (rule and_inv_unset)
    then show ?thesis by (simp add: s2_def x_def set_bits_same)
  qed
  have "QF_maxSignal s2 = QF_maxSignal s" "QF_active s2 = QF_active s"
    by (simp_all add: s2_def)
  with first second cleared others raw same show ?thesis
    unfolding p_def by blast
qed

theorem subscribe_unsubscribe_inverse_witness:
  "wf_registry 8 ex8 \<and> Q_USER_SIG \<le> 6 \<and> 6 < QF_maxSignal ex8 \<and> 0 < prio (ex_ao 3) \<and>
   prio (ex_ao 3) \<le> 8 \<and> QF_active ex8 (prio (ex_ao 3)) = Some (addr (ex_ao 3)) \<and>
   \<not> is_subscribed ex8 6 (prio (ex_ao 3)) \<and>
   (\<exists>s1. QActive_subscribe 8 ex8 (ex_ao 3) 6 = Inr s1 \<and>
         QActive_unsubscribe 8 s1 (ex_ao 3) 6 = Inr ex8)"
proof -
  have wf: "wf_registry 8 ex8"
    by (simp add: wf_registry_def ex8_def Q_DIM_bits_def)
  have pre: "Q_USER_SIG \<le> 6" "6 < QF_maxSignal ex8" "0 < prio (ex_ao 3)" "prio (ex_ao 3) \<le> 8"
    "QF_active ex8 (prio (ex_ao 3)) = Some (addr (ex_ao 3))"
    by (simp_all add: Q_USER_SIG_def ex8_def ex_ao_def ex_dir_def)
  have before: "\<not> is_subscribed ex8 6 (prio (ex_ao 3))"
    by (simp add: is_subscribed_def get_bits_def ex8_def ex_ao_def QF_div8Lkup_def QF_pwr2Lkup_def)
  from subscribe_unsubscribe_inverse [OF wf pre] before
  have "\<exists>s1. QActive_subscribe 8 ex8 (ex_ao 3) 6 = Inr s1 \<and>
         QActive_unsubscribe 8 s1 (ex_ao 3) 6 = Inr ex8"
    by blast
  with wf pre before show ?thesis by blast
qed

section \<open>Unsubscribing from a signal that was never subscribed\<close>

text \<open>
  \<^verbatim>\<open>QActive_unsubscribe\<close> has no assertion on the bit it clears: for an active object
  that is not subscribed to the signal the call returns and changes nothing.
\<close>

lemma unsubscribe_without_subscription:
  assumes "Q_USER_SIG \<le> sg" and "sg < QF_maxSignal s" and "0 < prio me" and "prio me \<le> M"
    and "QF_active s (prio me) = Some (addr me)" and "\<not> is_subscribed s sg (prio me)"
  shows "QActive_unsubscribe M s me sg = Inr s"
proof -
  from assms(6) have "get_bits s sg (QF_div8Lkup (prio me)) AND QF_pwr2Lkup (prio me) = 0"
    by (simp add: is_subscribed_def)
  then have "get_bits s sg (QF_div8Lkup (prio me)) AND QF_invPwr2Lkup (prio me) =
      get_bits s sg (QF_div8Lkup (prio me))"
    by (rule and_inv_unset)
  with assms(1-5) show ?thesis
    by (simp add: QActive_unsubscribe_def Let_def set_bits_same)
qed

text \<open>
  Claim C3. The comment of \<^verbatim>\<open>QActive_unsubscribe\<close> says that unsubscribing from a
  signal that has never been subscribed raises an assertion. The function has no such
  assertion: right after the initialisation, when no active object has subscribed to
  anything, the active object of priority 1 unsubscribes from signal 6, the call
  returns, and the state is unchanged.
\<close>

theorem unsubscribe_never_subscribed_returns:
  "\<not> is_subscribed (QF_psInit 8 ex8 10) 6 (prio (ex_ao 1)) \<and>
   QActive_unsubscribe 8 (QF_psInit 8 ex8 10) (ex_ao 1) 6 = Inr (QF_psInit 8 ex8 10)"
proof -
  have dim: "Q_DIM_bits 8 = 1"
    by (simp add: Q_DIM_bits_def)
  have rows: "replicate 10 (replicate (Q_DIM_bits 8) (0 :: u8)) =
      [[0], [0], [0], [0], [0], [0], [0], [0], [0], [0]]"
    unfolding dim by code_simp
  show ?thesis
    by (simp add: QActive_unsubscribe_def Let_def Q_USER_SIG_def QF_psInit_def rows ex8_def
          ex_ao_def ex_dir_def is_subscribed_def set_bits_def get_bits_def QF_div8Lkup_def
          QF_pwr2Lkup_def QF_invPwr2Lkup_def)
qed

section \<open>Unsubscribing from all signals\<close>

text \<open>
  Claim C8. For a registered active object, on a registry of the configured shape, the
  call of \<^verbatim>\<open>QActive_unsubscribeAll\<close> returns, and after it the bit of this active
  object is clear for every signal from \<^verbatim>\<open>Q_USER_SIG\<close> up to \<^verbatim>\<open>QF_maxSignal_\<close>,
  whatever it had subscribed to before.
\<close>

theorem unsubscribeAll_complete:
  assumes "wf_registry M s" and "0 < prio me" and "prio me \<le> M"
    and "QF_active s (prio me) = Some (addr me)"
  shows "\<exists>s'. QActive_unsubscribeAll M s me = Inr s' \<and>
           (\<forall>sg. Q_USER_SIG \<le> sg \<and> sg < QF_maxSignal s \<longrightarrow> \<not> is_subscribed s' sg (prio me))"
proof -
  define p where "p = prio me"
  define s' where "s' = unsubscribeAll_loop p (QF_div8Lkup p) s Q_USER_SIG"
  have p: "0 < p" "p \<le> M" using assms by (simp_all add: p_def)
  have ret: "QActive_unsubscribeAll M s me = Inr s'"
    using assms by (simp add: QActive_unsubscribeAll_def Let_def s'_def p_def)
  have "\<not> is_subscribed s' sg p" if sg: "Q_USER_SIG \<le> sg" "sg < QF_maxSignal s" for sg
  proof -
    have len: "sg < length (QF_subscrList s)"
      using assms(1) sg(2) by (simp add: wf_registry_def)
    then have "QF_subscrList s ! sg \<in> set (QF_subscrList s)" by simp
    then have "length (QF_subscrList s ! sg) = Q_DIM_bits M"
      using assms(1) by (simp add: wf_registry_def list_all_iff)
    with div8_le_Q_DIM [OF p] have "QF_div8Lkup p < length (QF_subscrList s ! sg)"
      by (simp add: QF_div8Lkup_def)
    with sg len show ?thesis
      by (simp add: is_subscribed_def s'_def unsubscribeAll_loop_get_bits and_inv_clears)
  qed
  with ret show ?thesis
    unfolding p_def by blast
qed

theorem unsubscribeAll_complete_witness:
  "wf_registry 8 ex8 \<and> 0 < prio (ex_ao 2) \<and> prio (ex_ao 2) \<le> 8 \<and>
   QF_active ex8 (prio (ex_ao 2)) = Some (addr (ex_ao 2)) \<and> is_subscribed ex8 6 (prio (ex_ao 2)) \<and>
   (\<exists>s'. QActive_unsubscribeAll 8 ex8 (ex_ao 2) = Inr s' \<and> \<not> is_subscribed s' 6 (prio (ex_ao 2)) \<and>
      \<not> is_subscribed s' 9 (prio (ex_ao 2)))"
proof -
  have wf: "wf_registry 8 ex8"
    by (simp add: wf_registry_def ex8_def Q_DIM_bits_def)
  have pre: "0 < prio (ex_ao 2)" "prio (ex_ao 2) \<le> 8"
    "QF_active ex8 (prio (ex_ao 2)) = Some (addr (ex_ao 2))"
    by (simp_all add: ex8_def ex_ao_def ex_dir_def)
  have before: "is_subscribed ex8 6 (prio (ex_ao 2))"
    by (simp add: is_subscribed_def get_bits_def ex8_def ex_ao_def QF_div8Lkup_def QF_pwr2Lkup_def)
  have range: "Q_USER_SIG \<le> 6 \<and> 6 < QF_maxSignal ex8" "Q_USER_SIG \<le> 9 \<and> 9 < QF_maxSignal ex8"
    by (simp_all add: Q_USER_SIG_def ex8_def)
  from unsubscribeAll_complete [OF wf pre] range
  have "\<exists>s'. QActive_unsubscribeAll 8 ex8 (ex_ao 2) = Inr s' \<and> \<not> is_subscribed s' 6 (prio (ex_ao 2)) \<and>
      \<not> is_subscribed s' 9 (prio (ex_ao 2))"
    by blast
  with wf pre before show ?thesis by blast
qed

text \<open>
  Claim C10. For a registered active object of priority \<open>p\<close> the call of
  \<^verbatim>\<open>QActive_unsubscribeAll\<close> returns and changes nothing but the bit of \<open>p\<close>: for every
  signal and every priority other than \<open>p\<close> the subscription is what it was, every bit of
  the storage outside the position of \<open>p\<close> in its byte is what it was, the subscriber
  lists of the signals below \<^verbatim>\<open>Q_USER_SIG\<close> are untouched, and so are the directory and
  the dimension of the registry.
\<close>

theorem unsubscribeAll_frame:
  assumes "0 < prio me" and "prio me \<le> M" and "QF_active s (prio me) = Some (addr me)"
  shows "\<exists>s'. QActive_unsubscribeAll M s me = Inr s' \<and>
           (\<forall>sg q. q \<noteq> prio me \<longrightarrow> is_subscribed s' sg q = is_subscribed s sg q) \<and>
           (\<forall>sg j b. \<not> (j = QF_div8Lkup (prio me) \<and> b = (prio me - 1) mod 8) \<longrightarrow>
              bit (get_bits s' sg j) b = bit (get_bits s sg j) b) \<and>
           (\<forall>sg. sg < Q_USER_SIG \<longrightarrow> QF_subscrList s' ! sg = QF_subscrList s ! sg) \<and>
           length (QF_subscrList s') = length (QF_subscrList s) \<and>
           QF_maxSignal s' = QF_maxSignal s \<and> QF_active s' = QF_active s"
proof -
  define p where "p = prio me"
  define i where "i = QF_div8Lkup p"
  define s' where "s' = unsubscribeAll_loop p i s Q_USER_SIG"
  have p: "0 < p" using assms by (simp add: p_def)
  have ret: "QActive_unsubscribeAll M s me = Inr s'"
    using assms by (simp add: QActive_unsubscribeAll_def Let_def s'_def p_def i_def)
  have raw: "bit (get_bits s' sg j) b = bit (get_bits s sg j) b"
    if "\<not> (j = i \<and> b = (p - 1) mod 8)" for sg j b
    using that p by (auto simp: s'_def unsubscribeAll_loop_get_bits bit_and_inv)
  have others: "is_subscribed s' sg q = is_subscribed s sg q" if "q \<noteq> p" for sg q
  proof (cases "q = 0")
    case True
    then show ?thesis by (simp add: is_subscribed_def QF_pwr2Lkup_def)
  next
    case False
    then have q: "0 < q" by simp
    have "\<not> (QF_div8Lkup q = i \<and> (q - 1) mod 8 = (p - 1) mod 8)"
      using prio_position_inj [OF q p] that by (auto simp: i_def QF_div8Lkup_def)
    from raw [OF this] q show ?thesis
      by (simp add: is_subscribed_def QF_pwr2Lkup_def and_exp_eq_0_iff_not_bit)
  qed
  have below: "QF_subscrList s' ! sg = QF_subscrList s ! sg" if "sg < Q_USER_SIG" for sg
    using that by (simp add: s'_def unsubscribeAll_loop_rows)
  from unsubscribeAll_loop_fields [of p i s Q_USER_SIG]
  have "length (QF_subscrList s') = length (QF_subscrList s)"
    "QF_maxSignal s' = QF_maxSignal s" "QF_active s' = QF_active s"
    by (simp_all add: s'_def)
  with ret raw others below show ?thesis
    unfolding p_def i_def by blast
qed

theorem unsubscribeAll_frame_witness:
  "0 < prio (ex_ao 2) \<and> prio (ex_ao 2) \<le> 8 \<and>
   QF_active ex8 (prio (ex_ao 2)) = Some (addr (ex_ao 2)) \<and>
   (\<exists>s'. QActive_unsubscribeAll 8 ex8 (ex_ao 2) = Inr s' \<and>
      is_subscribed s' 6 5 \<and> is_subscribed s' 6 7 \<and> is_subscribed s' 7 1 \<and>
      \<not> is_subscribed s' 6 3 \<and> QF_subscrList s' ! 2 = [0] \<and> QF_maxSignal s' = 10)"
proof -
  have pre: "0 < prio (ex_ao 2)" "prio (ex_ao 2) \<le> 8"
    "QF_active ex8 (prio (ex_ao 2)) = Some (addr (ex_ao 2))"
    by (simp_all add: ex8_def ex_ao_def ex_dir_def)
  have before: "is_subscribed ex8 6 5" "is_subscribed ex8 6 7" "is_subscribed ex8 7 1"
    "\<not> is_subscribed ex8 6 3" "QF_subscrList ex8 ! 2 = [0]" "QF_maxSignal ex8 = 10"
    by (simp_all add: is_subscribed_def get_bits_def ex8_def QF_div8Lkup_def QF_pwr2Lkup_def)
  have other: "5 \<noteq> prio (ex_ao 2)" "7 \<noteq> prio (ex_ao 2)" "1 \<noteq> prio (ex_ao 2)"
    "3 \<noteq> prio (ex_ao 2)" "2 < Q_USER_SIG"
    by (simp_all add: ex_ao_def Q_USER_SIG_def)
  from unsubscribeAll_frame [OF pre] obtain s'
    where s': "QActive_unsubscribeAll 8 ex8 (ex_ao 2) = Inr s'"
      "\<forall>sg q. q \<noteq> prio (ex_ao 2) \<longrightarrow> is_subscribed s' sg q = is_subscribed ex8 sg q"
      "\<forall>sg. sg < Q_USER_SIG \<longrightarrow> QF_subscrList s' ! sg = QF_subscrList ex8 ! sg"
      "QF_maxSignal s' = QF_maxSignal ex8"
    by blast
  from s'(2) other before have "is_subscribed s' 6 5" "is_subscribed s' 6 7" "is_subscribed s' 7 1"
    "\<not> is_subscribed s' 6 3"
    by blast+
  moreover from s'(3) other before have "QF_subscrList s' ! 2 = [0]" by simp
  moreover from s'(4) before have "QF_maxSignal s' = 10" by simp
  ultimately show ?thesis
    using pre s'(1) by blast
qed

section \<open>Invariants of the registry\<close>



lemma length_row_set_bits [simp]:
  "length (QF_subscrList (set_bits s sg i v) ! k) = length (QF_subscrList s ! k)"
  by (simp add: row_set_bits)



lemma bits_above_clear_directory [simp]:
  "bits_above_clear M (s\<lparr>QF_active := d\<rparr>) = bits_above_clear M s"
  by (simp add: bits_above_clear_def)




lemma wf_registry_set_bits:
  "wf_registry M s \<Longrightarrow> wf_registry M (set_bits s sg i v)"
  by (simp add: wf_registry_def list_all_length)

lemma reachable_wf_registry:
  assumes "reachable M s" and "0 < M" and "M \<le> 64"
  shows "wf_registry M s"
  using assms
proof induction
  case (init s maxSignal)
  then show ?case by (simp add: wf_registry_def QF_psInit_def list_all_length)
next
  case (directory s d)
  then show ?case by (simp add: wf_registry_def)
next
  case (subscribe s me sg s')
  then show ?case
    by (auto simp: QActive_subscribe_def Let_def wf_registry_set_bits split: if_splits)
next
  case (unsubscribe s me sg s')
  then show ?case
    by (auto simp: QActive_unsubscribe_def Let_def wf_registry_set_bits split: if_splits)
next
  case (unsubscribeAll s me s')
  define p where "p = prio me"
  from unsubscribeAll have s': "s' = unsubscribeAll_loop p (QF_div8Lkup p) s Q_USER_SIG"
    by (auto simp: QActive_unsubscribeAll_def Let_def p_def split: if_splits)
  from unsubscribeAll have wf: "wf_registry M s" by simp
  have "length (QF_subscrList s') = length (QF_subscrList s)" "QF_maxSignal s' = QF_maxSignal s"
    using unsubscribeAll_loop_fields [of p "QF_div8Lkup p" s Q_USER_SIG] by (simp_all add: s')
  moreover have "length (QF_subscrList s' ! k) = length (QF_subscrList s ! k)" for k
    by (simp add: s' unsubscribeAll_loop_rows)
  ultimately show ?case
    using wf by (simp add: wf_registry_def list_all_length)
qed

section \<open>No bit above the highest priority\<close>



end
